theory Spec2Isabelle
  imports Complex_Main "HOL-Library.Multiset"
begin

section \<open>Strings and numbers of the source language\<close>

text \<open>
  JavaScript strings are character lists. The numbers the part-label code handles are
  integers; they are modelled as unbounded integers, which agrees with JavaScript's
  doubles below \<open>2\<^sup>5\<^sup>3\<close>. \<open>NaN\<close> is \<open>None\<close>.
\<close>

definition digits :: string where
  "digits = ''0123456789''"

definition is_digit :: "char \<Rightarrow> bool" where
  "is_digit c = (c \<in> set digits)"

definition digit_val :: "char \<Rightarrow> nat" where
  "digit_val c = length (takeWhile (\<lambda>d. d \<noteq> c) digits)"

definition digit_chr :: "nat \<Rightarrow> char" where
  "digit_chr d = digits ! (d mod 10)"

definition digits_val :: "string \<Rightarrow> nat" where
  "digits_val ds = foldl (\<lambda>a c. 10 * a + digit_val c) 0 ds"

text \<open>\<open>String(n)\<close> of a non-negative integer, as template literals and \<open>+\<close> produce it.\<close>

fun show_nat :: "nat \<Rightarrow> string" where
  "show_nat n = (if n < 10 then [digit_chr n] else show_nat (n div 10) @ [digit_chr (n mod 10)])"

declare show_nat.simps [simp del]

definition show_int :: "int \<Rightarrow> string" where
  "show_int i = (if i < 0 then CHR ''-'' # show_nat (nat (- i)) else show_nat (nat i))"

text \<open>
  \<open>parseInt(s, 10)\<close>: leading white space is skipped, one sign is read, then the longest
  run of decimal digits; without a digit the result is \<open>NaN\<close>.
\<close>

definition is_space :: "char \<Rightarrow> bool" where
  "is_space c = (c \<in> {CHR '' '', CHR 0x09, CHR 0x0A, CHR 0x0B, CHR 0x0C, CHR 0x0D})"

definition parseInt :: "string \<Rightarrow> int option" where
  "parseInt s =
     (let t = dropWhile is_space s;
          (neg, u) = (case t of
                        c # r \<Rightarrow> if c = CHR ''-'' then (True, r)
                                 else if c = CHR ''+'' then (False, r) else (False, t)
                      | [] \<Rightarrow> (False, t));
          ds = takeWhile is_digit u
      in if ds = [] then None
         else Some (if neg then - int (digits_val ds) else int (digits_val ds)))"

text \<open>
  \<open>Number(s)\<close> on the segments of a label: the empty string is 0, a run of decimal
  digits is its value. Every other string is \<open>NaN\<close> in this model; the further literal
  forms JavaScript accepts (sign, exponent, radix prefix, surrounding blanks) do not occur
  in dotted-decimal labels, and the theorems about sorting assume digit segments.
\<close>

definition Number :: "string \<Rightarrow> int option" where
  "Number s = (if list_all is_digit s then Some (int (digits_val s)) else None)"

text \<open>\<open>s.split('.')\<close>, \<open>ws.join('.')\<close>, \<open>s.startsWith(p)\<close> and \<open>s.lastIndexOf('.')\<close>.\<close>

fun split_dot :: "string \<Rightarrow> string list" where
  "split_dot [] = [[]]"
| "split_dot (c # cs) =
     (if c = CHR ''.'' then [] # split_dot cs
      else (case split_dot cs of w # ws \<Rightarrow> (c # w) # ws | [] \<Rightarrow> [[c]]))"

fun join_dot :: "string list \<Rightarrow> string" where
  "join_dot [] = []"
| "join_dot [w] = w"
| "join_dot (w # v # ws) = w @ CHR ''.'' # join_dot (v # ws)"

fun startsWith :: "string \<Rightarrow> string \<Rightarrow> bool" where
  "startsWith s [] = True"
| "startsWith [] (p # ps) = False"
| "startsWith (c # cs) (p # ps) = (c = p \<and> startsWith cs ps)"

fun lastIndexOf_dot :: "string \<Rightarrow> int" where
  "lastIndexOf_dot [] = - 1"
| "lastIndexOf_dot (c # cs) =
     (let i = lastIndexOf_dot cs
      in if i \<noteq> - 1 then i + 1 else if c = CHR ''.'' then 0 else - 1)"

section \<open>Document stage (stage script and \<open>crop-edit.js\<close>, line 1)\<close>

text \<open>
  \<open>stages\<close> is the global array of \<open>crop-edit.js\<close>; \<open>getDocStage\<close> is the step
  function of the stage script. JavaScript numbers that hold integers are modelled as
  \<open>int\<close>. Reading \<open>stages[i]\<close> with \<open>i\<close> outside \<open>0..3\<close> yields \<open>undefined\<close> in
  JavaScript, which is \<open>None\<close> here.
\<close>

definition stages :: "string list" where
  "stages = [''question_paper'', ''marking_scheme'', ''solution_script'', ''answer_script'']"

definition getDocStage :: "int \<Rightarrow> int" where
  "getDocStage current_stage =
     (if current_stage \<le> 2 then 0
      else if current_stage = 3 then 1
      else if current_stage = 4 then 2
      else if current_stage \<ge> 5 \<and> current_stage \<le> 8 then 3
      else - 1)"

definition array_get :: "'a list \<Rightarrow> int \<Rightarrow> 'a option" where
  "array_get xs i = (if 0 \<le> i \<and> i < int (length xs) then Some (xs ! nat i) else None)"

definition document_type_of :: "int \<Rightarrow> string option" where
  "document_type_of current_stage = array_get stages (getDocStage current_stage)"

section \<open>Composition engine (\<open>crop-edit.js\<close>, lines 3--21 and 772--786)\<close>

text \<open>
  A raster is modelled by its natural size in pixels and by what is painted on it: a list
  of sources, each with the position of its top-left corner. A source is a caption text, a
  rectangle cropped from a rendered page, or a page region clipped to a free-hand path.
  Pixel sizes are natural numbers; positions are rationals, since the centring offset
  \<open>(maxWidth - w) / 2\<close> of the source may be a half.
\<close>

datatype source =
    Caption string
  | PageCrop rat rat rat rat
  | PathCrop "(rat \<times> rat) list" rat

datatype image = Image (naturalWidth: nat) (naturalHeight: nat) (painted: "(source \<times> rat \<times> rat) list")

text \<open>The first \<open>forEach\<close> of \<open>concatenateImages\<close>: \<open>maxWidth\<close> and \<open>totalHeight\<close>.\<close>

fun measure_loop :: "image list \<Rightarrow> nat \<times> nat \<Rightarrow> nat \<times> nat" where
  "measure_loop [] acc = acc"
| "measure_loop (img # imgs) (maxWidth, totalHeight) =
     measure_loop imgs (max maxWidth (naturalWidth img), totalHeight + naturalHeight img)"

text \<open>
  The second \<open>forEach\<close>: the calls \<open>ctx.drawImage(img, x, currentY)\<close> in order, with
  \<open>currentY\<close> threaded through.
\<close>

fun draw_loop :: "nat \<Rightarrow> image list \<Rightarrow> nat \<Rightarrow> (image \<times> rat \<times> rat) list" where
  "draw_loop maxWidth [] currentY = []"
| "draw_loop maxWidth (img # imgs) currentY =
     (img, (of_nat maxWidth - of_nat (naturalWidth img)) / 2, of_nat currentY)
       # draw_loop maxWidth imgs (currentY + naturalHeight img)"

definition drawImage_calls :: "image list \<Rightarrow> (image \<times> rat \<times> rat) list" where
  "drawImage_calls images = draw_loop (fst (measure_loop images (0, 0))) images 0"

definition shift :: "rat \<Rightarrow> rat \<Rightarrow> source \<times> rat \<times> rat \<Rightarrow> source \<times> rat \<times> rat" where
  "shift dx dy p = (case p of (src, x, y) \<Rightarrow> (src, x + dx, y + dy))"

definition concatenateImages :: "image list \<Rightarrow> image" where
  "concatenateImages images =
     (let (maxWidth, totalHeight) = measure_loop images (0, 0)
      in Image maxWidth totalHeight
           (concat (map (\<lambda>(img, x, y). map (shift x y) (painted img)) (drawImage_calls images))))"

text \<open>
  \<open>createTextImage\<close>: the canvas is as wide as the measured text plus 20 and 40 high. The
  text metrics are the browser's; they are the parameter \<open>measureText\<close>.
\<close>

definition createTextImage :: "(string \<Rightarrow> nat) \<Rightarrow> string \<Rightarrow> image" where
  "createTextImage measureText text = Image (measureText text + 20) 40 [(Caption text, 0, 0)]"

section \<open>Region capture controller (\<open>crop-edit.js\<close>, lines 23--36 and 367--582)\<close>

text \<open>
  The module-level variables of \<open>crop-edit.js\<close> and the parts of the page they mirror are
  one record. A region of \<open>regionSelections\<close> keeps its id, the value shown in the
  \<open>.region-number\<close> span of its marker (\<open>0\<close> in the markup it is created from), the
  marker's \<open>zIndex\<close> (unset at first), the value of its type select and, when the
  question has parts, the value of its part select (the empty string is the option Main).
  \<open>markers\<close> lists the markers attached to the page overlays by region id; \<open>sidebar\<close>
  lists the wrappers of \<open>#cropped-images\<close> in document order, each with its
  \<open>data-region-id\<close> and its thumbnail. \<open>currentQuestion\<close> is
  \<open>questions[currentQuestionIndex]\<close>. Coordinates are rationals.
\<close>

datatype kind = Text | Table | Diagram

text \<open>
  A question object of \<open>questions\<close>: its \<open>id\<close>, \<open>question_number\<close> and \<open>parts\<close> (the
  decoded \<open>part_labels\<close>).
\<close>

record exam_question =
  q_id :: nat
  q_number :: nat
  q_parts :: "string list"

datatype cut_mode = Box | Freehand

record region =
  regionId :: nat
  number :: nat
  zIndex :: "nat option"
  selectEl :: kind
  partSelect :: "string option"

record box_rect =
  minX :: rat
  minY :: rat
  width :: rat
  height :: rat

record capture =
  isSelecting :: bool
  cutMode :: cut_mode
  currentBoxRect :: "box_rect option"
  pathPoints :: "(rat \<times> rat) list"
  ratio :: rat
  regionSelections :: "region list"
  regionCounter :: nat
  markers :: "nat list"
  sidebar :: "(nat \<times> image) list"
  currentQuestion :: exam_question

text \<open>\<open>Array.prototype.find\<close> and \<open>findIndex\<close> (\<open>-1\<close> when nothing matches).\<close>

fun find_js :: "('a \<Rightarrow> bool) \<Rightarrow> 'a list \<Rightarrow> 'a option" where
  "find_js P [] = None"
| "find_js P (x # xs) = (if P x then Some x else find_js P xs)"


text \<open>
  \<open>updateRegionNumbers\<close>: for the wrapper at position \<open>index\<close> of the sidebar, the first
  region with the wrapper's id gets the number and the \<open>zIndex\<close> \<open>index + 1\<close>; a wrapper
  with no region is passed over, and still counts as a position.
\<close>

fun renumber_region :: "nat \<Rightarrow> nat \<Rightarrow> region list \<Rightarrow> region list" where
  "renumber_region rid n [] = []"
| "renumber_region rid n (r # rs) =
     (if regionId r = rid then r\<lparr>number := n, zIndex := Some n\<rparr> # rs
      else r # renumber_region rid n rs)"

fun number_loop :: "nat list \<Rightarrow> nat \<Rightarrow> region list \<Rightarrow> region list" where
  "number_loop [] index rs = rs"
| "number_loop (rid # wrappers) index rs =
     number_loop wrappers (index + 1) (renumber_region rid (index + 1) rs)"

definition updateRegionNumbers :: "capture \<Rightarrow> capture" where
  "updateRegionNumbers s =
     s\<lparr>regionSelections := number_loop (map fst (sidebar s)) 0 (regionSelections s)\<rparr>"



text \<open>
  \<open>addRegionSelection\<close> with \<open>addImageToSidebar\<close>: the id is the counter, which is then
  incremented; the type select starts at its first option \<open>Text\<close>; the part select exists
  only when the current question has parts and starts at its first option Main.
\<close>

definition addRegionSelection :: "image \<Rightarrow> capture \<Rightarrow> capture" where
  "addRegionSelection dataURL s =
     (let rid = regionCounter s;
          s1 = s\<lparr>regionCounter := regionCounter s + 1\<rparr>;
          s2 = s1\<lparr>markers := markers s1 @ [rid]\<rparr>;
          s3 = s2\<lparr>regionSelections := regionSelections s2 @
                 [\<lparr>regionId = rid, number = 0, zIndex = None, selectEl = Text,
                   partSelect = (if q_parts (currentQuestion s2) \<noteq> [] then Some [] else None)\<rparr>]\<rparr>;
          s4 = s3\<lparr>sidebar := sidebar s3 @ [(rid, dataURL)]\<rparr>
      in updateRegionNumbers s4)"







definition store_consistent :: "capture \<Rightarrow> bool" where
  "store_consistent s =
     (distinct (map regionId (regionSelections s)) \<and> distinct (map fst (sidebar s))
      \<and> set (map fst (sidebar s)) = set (map regionId (regionSelections s)))"

text \<open>
  The thumbnail's own delete button removes its wrapper and then calls \<open>deleteRegion\<close>;
  at that call the sidebar and the region list agree on every id but the one passed.
\<close>

definition agree_except :: "nat \<Rightarrow> capture \<Rightarrow> bool" where
  "agree_except rid s =
     (distinct (map regionId (regionSelections s)) \<and> distinct (map fst (sidebar s))
      \<and> set (map fst (sidebar s)) - {rid} = set (map regionId (regionSelections s)) - {rid})"

text \<open>\<open>region.partSelect?.value || ""\<close>: the part a region is assigned to, empty for Main.\<close>

definition region_part :: "region \<Rightarrow> string" where
  "region_part r = (case partSelect r of None \<Rightarrow> [] | Some v \<Rightarrow> v)"





definition ids_below_counter :: "capture \<Rightarrow> bool" where
  "ids_below_counter s = list_all (\<lambda>r. regionId r < regionCounter s) (regionSelections s)"

section \<open>Response assembly (\<open>crop-edit.js\<close>, lines 224--239, 606--710 and 824--885)\<close>

text \<open>
  The response objects. \<open>createTempResponse\<close> builds the record of a question with one
  empty entry per part label; \<open>handleSubmit\<close> sends a payload per question.
\<close>

record image_lists =
  text_images :: "image list"
  table_images :: "image list"
  diagram_images :: "image list"

record part_response = image_lists +
  part_label :: string

record question_images = image_lists +
  question_id :: nat
  question_number :: nat

record question_response = question_images +
  parts :: "part_response list"

record payload = question_images +
  original_index :: nat

definition createTempResponse :: "exam_question \<Rightarrow> question_response" where
  "createTempResponse question =
     \<lparr>text_images = [], table_images = [], diagram_images = [],
      question_id = q_id question, question_number = q_number question,
      parts = map (\<lambda>l. \<lparr>text_images = [], table_images = [], diagram_images = [],
                          part_label = l\<rparr>) (q_parts question)\<rparr>"

text \<open>
  A bucket \<open>{ Text: [], Table: [], Diagram: [] }\<close> is a function from the kind to the
  list pushed so far; \<open>partsMap\<close> is a dictionary from part label to bucket. Reading a
  property of \<open>undefined\<close> throws a \<open>TypeError\<close>.
\<close>

datatype js_error = TypeError

type_synonym bucket = "kind \<Rightarrow> image list"

definition empty_bucket :: bucket where
  "empty_bucket = (\<lambda>k. [])"

definition push :: "bucket \<Rightarrow> kind \<Rightarrow> image \<Rightarrow> bucket" where
  "push b k src = b(k := b k @ [src])"

text \<open>Step 3 of \<open>saveCurrentSelections\<close>: each wrapper's crop goes to its bucket.\<close>

fun assign_loop ::
  "(nat \<times> image) list \<Rightarrow> region list \<Rightarrow> bucket \<times> (string \<rightharpoonup> bucket)
     \<Rightarrow> js_error + bucket \<times> (string \<rightharpoonup> bucket)" where
  "assign_loop [] rs acc = Inr acc"
| "assign_loop ((rid, src) # wrappers) rs (mainBucket, partsMap) =
     (case find_js (\<lambda>r. regionId r = rid) rs of
        None \<Rightarrow> Inl TypeError
      | Some region \<Rightarrow>
          (let kind = selectEl region; part = region_part region
           in if part \<noteq> [] then
                (case partsMap part of
                   None \<Rightarrow> Inl TypeError
                 | Some b \<Rightarrow> assign_loop wrappers rs (mainBucket, partsMap(part \<mapsto> push b kind src)))
              else assign_loop wrappers rs (push mainBucket kind src, partsMap)))"

definition processImageWithLabel :: "(string \<Rightarrow> nat) \<Rightarrow> string \<Rightarrow> image \<Rightarrow> image" where
  "processImageWithLabel measureText labelText src =
     concatenateImages [createTextImage measureText labelText, src]"

definition text_stack :: "(string \<Rightarrow> nat) \<Rightarrow> string \<Rightarrow> image list \<Rightarrow> image list" where
  "text_stack measureText labelText textImgs =
     (if length textImgs > 0
      then [concatenateImages (createTextImage measureText labelText # textImgs)] else [])"

text \<open>Step 7: the part objects of \<open>tempResponse\<close> are filled by index.\<close>

fun fill_parts ::
  "(string \<Rightarrow> nat) \<Rightarrow> (string \<rightharpoonup> bucket) \<Rightarrow> string list \<Rightarrow> part_response list
     \<Rightarrow> js_error + part_response list" where
  "fill_parts measureText partsMap [] partObjs = Inr partObjs"
| "fill_parts measureText partsMap (partLabel # ls) [] = Inl TypeError"
| "fill_parts measureText partsMap (partLabel # ls) (partObj # objs) =
     (case partsMap partLabel of
        None \<Rightarrow> Inl TypeError
      | Some bucket \<Rightarrow>
          (case fill_parts measureText partsMap ls objs of
             Inl e \<Rightarrow> Inl e
           | Inr objs' \<Rightarrow>
               Inr (partObj\<lparr>text_images := text_stack measureText (''Part '' @ partLabel) (bucket Text),
                            table_images := map (processImageWithLabel measureText (''Part '' @ partLabel))
                                              (bucket Table),
                            diagram_images := map (processImageWithLabel measureText (''Part '' @ partLabel))
                                                (bucket Diagram)\<rparr> # objs')))"

definition saveCurrentSelections ::
  "(string \<Rightarrow> nat) \<Rightarrow> capture \<Rightarrow> question_response \<Rightarrow> js_error + question_response" where
  "saveCurrentSelections measureText s tempResponse =
     (let partsList = q_parts (currentQuestion s);
          partsMap = fold (\<lambda>p m. m(p \<mapsto> empty_bucket)) partsList Map.empty
      in case assign_loop (sidebar s) (regionSelections s) (empty_bucket, partsMap) of
           Inl e \<Rightarrow> Inl e
         | Inr (mainBucket, partsMap') \<Rightarrow>
             (let qNumText = ''Question Number '' @ show_nat (q_number (currentQuestion s));
                  t1 = tempResponse\<lparr>text_images := text_stack measureText qNumText (mainBucket Text),
                         table_images := map (processImageWithLabel measureText qNumText) (mainBucket Table),
                         diagram_images := map (processImageWithLabel measureText qNumText)
                                             (mainBucket Diagram)\<rparr>
              in case fill_parts measureText partsMap' partsList (parts t1) of
                   Inl e \<Rightarrow> Inl e
                 | Inr objs \<Rightarrow> Inr (t1\<lparr>parts := objs\<rparr>)))"

text \<open>
  Step 1 of \<open>handleSubmit\<close> for one response: the merged text image, and the table and
  diagram lists with the parts' images appended.
\<close>

definition process_response :: "(string \<Rightarrow> nat) \<Rightarrow> nat \<Rightarrow> question_response \<Rightarrow> payload" where
  "process_response measureText idx response =
     (let topLevel = text_images response;
          partsLevel = concat (map text_images (parts response));
          finalTextImages =
            (if length topLevel > 0 \<or> length partsLevel > 0 then
               [if length topLevel > 0 then concatenateImages (topLevel @ partsLevel)
                else concatenateImages
                       [createTextImage measureText
                          (''Question Number '' @ show_nat (question_number response)),
                        concatenateImages partsLevel]]
             else [])
      in \<lparr>text_images = finalTextImages,
          table_images = table_images response @ concat (map table_images (parts response)),
          diagram_images = diagram_images response @ concat (map diagram_images (parts response)),
          question_id = question_id response, question_number = question_number response,
          original_index = idx\<rparr>)"

text \<open>
  Steps 2 and 3 of \<open>handleSubmit\<close> with \<open>postExamStage\<close>, as the requests and alerts they
  issue. A \<open>fetch\<close> either fails or yields a response with its \<open>ok\<close> flag and whether its
  body parses as JSON; each processed response comes with the outcome of its own post.
  Every question is posted; the \<open>await\<close> of the posts throws, and ends the handler, when
  one of them failed or had no JSON body. \<open>postExamStage\<close> catches a failed stage write
  and goes on to the grading request.
\<close>

datatype fetch_outcome = NetworkError | Response bool bool

datatype effect =
    PostQuestionResponse nat
  | PostProcessTextImages
  | PostExamStage int
  | PostGradeExam
  | AlertMessage string

definition json_resolves :: "fetch_outcome \<Rightarrow> bool" where
  "json_resolves r = (case r of NetworkError \<Rightarrow> False | Response ok json \<Rightarrow> json)"

definition postExamStage :: "int \<Rightarrow> effect list" where
  "postExamStage stage = PostExamStage stage # (if stage = 7 then [PostGradeExam] else [])"

definition handleSubmit_requests ::
  "string \<Rightarrow> (payload \<times> fetch_outcome) list \<Rightarrow> fetch_outcome \<Rightarrow> effect list" where
  "handleSubmit_requests document_type submissions procRes =
     map (\<lambda>(resp, outcome). PostQuestionResponse (question_id resp)) submissions @
     (if \<not> list_all (\<lambda>(resp, outcome). json_resolves outcome) submissions then []
      else if document_type = ''answer_script'' then
        PostProcessTextImages #
        (if json_resolves procRes then
           AlertMessage ''Responses submitted and processed successfully!'' # postExamStage 7
         else [AlertMessage ''Processing/Extraction of text from individual question images failed.''])
      else [AlertMessage ''Responses submitted successfully!''])"

text \<open>The capture state of the end-to-end scenario: question 1 with the part 1.1.\<close>

definition question_one :: exam_question where
  "question_one = \<lparr>q_id = 7, q_number = 1, q_parts = [''1.1'']\<rparr>"

definition two_text_regions :: "image \<Rightarrow> image \<Rightarrow> capture" where
  "two_text_regions mainImg partImg =
     \<lparr>isSelecting = False, cutMode = Box, currentBoxRect = None, pathPoints = [], ratio = 2,
      regionSelections =
        [\<lparr>regionId = 1, number = 1, zIndex = Some 1, selectEl = Text, partSelect = Some []\<rparr>,
         \<lparr>regionId = 2, number = 2, zIndex = Some 2, selectEl = Text, partSelect = Some ''1.1''\<rparr>],
      regionCounter = 3, markers = [1, 2],
      sidebar = [(1, mainImg), (2, partImg)],
      currentQuestion = question_one\<rparr>"

definition captions_of :: "image \<Rightarrow> string list" where
  "captions_of img = concat (map (\<lambda>p. case fst p of Caption t \<Rightarrow> [t] | _ \<Rightarrow> []) (painted img))"

text \<open>The response the scenario is expected to assemble, and a crop of a page.\<close>

definition scenario_response :: "(string \<Rightarrow> nat) \<Rightarrow> image \<Rightarrow> image \<Rightarrow> question_response" where
  "scenario_response mt mainImg partImg =
     \<lparr>text_images = [concatenateImages [createTextImage mt ''Question Number 1'', mainImg]],
      table_images = [], diagram_images = [],
      question_id = 7, question_number = 1,
      parts = [\<lparr>text_images = [concatenateImages [createTextImage mt ''Part 1.1'', partImg]],
                table_images = [], diagram_images = [], part_label = ''1.1''\<rparr>]\<rparr>"

definition page_crop :: "rat \<Rightarrow> rat \<Rightarrow> nat \<Rightarrow> nat \<Rightarrow> image" where
  "page_crop x y w h = Image w h [(PageCrop x y (of_nat w) (of_nat h), 0, 0)]"

section \<open>Label tree engine (\<open>announcements_1.js\<close>, lines 386--578)\<close>

text \<open>
  The part labels of one question are the list of strings that \<open>getPartLabels\<close> reads
  from the page and \<open>renderPartLabels\<close> writes back. Each operation is a function from
  that list to the list the page shows afterwards; an operation that returns early
  leaves the page as it was and reports the text of its alert.
\<close>

text \<open>
  \<open>Array.prototype.sort\<close> with a comparator. The standard makes the sort stable and reads
  a comparator result \<open>NaN\<close> as 0; for a consistent comparator the result is the same for
  every stable algorithm, and the model is the stable insertion sort.
\<close>

definition cmp_val :: "int option \<Rightarrow> int" where
  "cmp_val v = (case v of None \<Rightarrow> 0 | Some i \<Rightarrow> i)"

fun insert_js :: "('a \<Rightarrow> 'a \<Rightarrow> int option) \<Rightarrow> 'a \<Rightarrow> 'a list \<Rightarrow> 'a list" where
  "insert_js cmp x [] = [x]"
| "insert_js cmp x (y # ys) =
     (if cmp_val (cmp x y) \<le> 0 then x # y # ys else y # insert_js cmp x ys)"

definition sort_js :: "('a \<Rightarrow> 'a \<Rightarrow> int option) \<Rightarrow> 'a list \<Rightarrow> 'a list" where
  "sort_js cmp xs = foldr (insert_js cmp) xs []"

text \<open>Subtraction and \<open>!==\<close> on numbers that may be \<open>NaN\<close>.\<close>

definition js_sub :: "int option \<Rightarrow> int option \<Rightarrow> int option" where
  "js_sub a b = (case (a, b) of (Some x, Some y) \<Rightarrow> Some (x - y) | _ \<Rightarrow> None)"

definition js_ne :: "int option \<Rightarrow> int option \<Rightarrow> bool" where
  "js_ne a b = (a = None \<or> b = None \<or> a \<noteq> b)"

text \<open>The comparator of \<open>sortPartLabels\<close>: its \<open>for\<close> loop from index \<open>i\<close> on.\<close>

function compare_from :: "nat \<Rightarrow> int option list \<Rightarrow> int option list \<Rightarrow> int option" where
  "compare_from i aParts bParts =
     (if i < max (length aParts) (length bParts) then
        (let aVal = (if i < length aParts then aParts ! i else Some (- 1));
             bVal = (if i < length bParts then bParts ! i else Some (- 1))
         in if js_ne aVal bVal then js_sub aVal bVal
            else compare_from (i + 1) aParts bParts)
      else Some (int (length aParts) - int (length bParts)))"
  by pat_completeness auto
termination
  by (relation "measure (\<lambda>(i, aParts, bParts). max (length aParts) (length bParts) - i)") auto

declare compare_from.simps [simp del]

definition compare_labels :: "string \<Rightarrow> string \<Rightarrow> int option" where
  "compare_labels a b =
     compare_from 0 (map Number (split_dot a)) (map Number (split_dot b))"

definition sortPartLabels :: "string list \<Rightarrow> string list" where
  "sortPartLabels labels = sort_js compare_labels labels"

text \<open>
  \<open>addSubpartToQuestion\<close>, the handler of the question's own add button.
  \<open>parentQuestionNumber\<close> is the question number of the card, as a string.
\<close>

definition second_number :: "string \<Rightarrow> int" where
  "second_number l =
     (case array_get (split_dot l) 1 of
        None \<Rightarrow> 0
      | Some p \<Rightarrow> (case parseInt p of None \<Rightarrow> 0 | Some v \<Rightarrow> v))"

definition addSubpartToQuestion :: "string \<Rightarrow> string list \<Rightarrow> string list \<times> string option" where
  "addSubpartToQuestion parentQuestionNumber partLabels =
     (let mainParts = filter (\<lambda>label. startsWith label (parentQuestionNumber @ ''.'')) partLabels
      in if length mainParts \<ge> 6
         then (partLabels, Some ''Maximum of 6 subparts reached for this question'')
         else
           let newLabel =
                 (if length mainParts = 0 then parentQuestionNumber @ ''.1''
                  else
                    let highest = fold max (map second_number (tl mainParts))
                                    (second_number (hd mainParts))
                    in parentQuestionNumber @ ''.'' @ show_int (highest + 1))
           in (sortPartLabels (partLabels @ [newLabel]), None))"

text \<open>\<open>addSubpart\<close>, the handler of a part's add button.\<close>

definition is_direct_child :: "string \<Rightarrow> nat \<Rightarrow> string \<Rightarrow> bool" where
  "is_direct_child parent parentDepth label =
     (if startsWith label (parent @ ''.'') then length (split_dot label) = parentDepth + 1
      else False)"



text \<open>
  \<open>removePart\<close>. The first argument is the answer to the \<open>confirm\<close> dialog. \<open>rename\<close> is
  the body of the inner \<open>map\<close>, \<open>renumber_step\<close> the body of \<open>siblings.forEach\<close>.
\<close>

definition last_number :: "string \<Rightarrow> int option" where
  "last_number l = parseInt (last (split_dot l))"

definition rename :: "string \<Rightarrow> string \<Rightarrow> string \<Rightarrow> string" where
  "rename oldPrefix newPrefix pl =
     (if pl = oldPrefix \<or> startsWith pl (oldPrefix @ ''.'')
      then newPrefix @ drop (length oldPrefix) pl else pl)"

definition renumber_step :: "string \<Rightarrow> int option \<Rightarrow> string \<Rightarrow> string list \<Rightarrow> string list" where
  "renumber_step parent removedNum sib partLabels =
     (case (last_number sib, removedNum) of
        (Some sibNumber, Some removed) \<Rightarrow>
          if sibNumber > removed then
            (let oldPrefix = parent @ ''.'' @ show_int sibNumber;
                 newPrefix = parent @ ''.'' @ show_int (sibNumber - 1)
             in map (rename oldPrefix newPrefix) partLabels)
          else partLabels
      | _ \<Rightarrow> partLabels)"

definition removePart :: "bool \<Rightarrow> string \<Rightarrow> string list \<Rightarrow> string list" where
  "removePart confirmed labelToRemove partLabels0 =
     (if \<not> confirmed then partLabels0
      else
        let partLabels = filter (\<lambda>pl. \<not> (pl = labelToRemove \<or> startsWith pl (labelToRemove @ ''.'')))
                           partLabels0;
            lastDot = lastIndexOf_dot labelToRemove
        in if lastDot > 0 then
             (let parent = take (nat lastDot) labelToRemove;
                  parentDepth = length (split_dot parent);
                  siblings = sort_js (\<lambda>a b. js_sub (last_number a) (last_number b))
                               (filter (is_direct_child parent parentDepth) partLabels);
                  removedNum = last_number labelToRemove
              in fold (renumber_step parent removedNum) siblings partLabels)
           else partLabels)"

section \<open>Label sets: limits, order and the renumbering stated on segments\<close>

text \<open>
  The depth of a label is its number of segments, \<open>label.split('.').length\<close>; the direct
  children of a parent in a label list are the labels that the filter of \<open>addSubpart\<close>
  keeps; \<open>child_numbers\<close> are their last segments as \<open>parseInt\<close> reads them. The two
  limits of the engine are stated with these: no label deeper than 6, no parent with more
  than 6 direct children.
\<close>

definition depth :: "string \<Rightarrow> nat" where
  "depth label = length (split_dot label)"

definition direct_children :: "string \<Rightarrow> string list \<Rightarrow> string list" where
  "direct_children parent labels = filter (is_direct_child parent (depth parent)) labels"




text \<open>
  A well-formed label is the rendering of a non-empty list of natural numbers: the decimal
  numerals of the segments joined by dots. \<open>label_le\<close> is the order of the specification
  on segment lists: segments are compared left to right as numbers, and a label that
  ends first comes first. \<open>seg_compare\<close> is the number the comparator of
  \<open>sortPartLabels\<close> returns on two segment lists, and \<open>seg_cmp\<close> the same as a
  comparator result.
\<close>

definition render :: "nat list \<Rightarrow> string" where
  "render segs = join_dot (map show_nat segs)"




text \<open>
  A valid label set, as the data model has it: no label twice; every label has the
  question number and at least one more segment, at most 6 segments in all, each at
  least 1; the last segment is at most 6; and below every label all smaller sibling
  numbers from 1 on are present (siblings are contiguous from 1).
\<close>

definition valid_labels :: "nat list list \<Rightarrow> bool" where
  "valid_labels S =
     (distinct S \<and>
      list_all (\<lambda>l. 2 \<le> length l \<and> length l \<le> 6 \<and> list_all (\<lambda>k. 1 \<le> k) l \<and> last l \<le> 6
                   \<and> list_all (\<lambda>j. butlast l @ [j] \<in> set S) [1..<last l]) S)"

text \<open>
  \<open>removePart\<close> in the words of the specification, on segment lists. The label and
  every label it is a prefix of are deleted. A remaining label is renumbered when it
  lies at or below a sibling of the removed label (same parent, that sibling present in
  the set) whose last segment is greater than the removed one: its segment at the
  removed label's position goes down by one, everything else stays.
\<close>

definition spec_renumber :: "nat list list \<Rightarrow> nat list \<Rightarrow> nat list \<Rightarrow> nat list" where
  "spec_renumber S l s =
     (let n = length l - 1
      in if n < length s \<and> take n s = butlast l \<and> last l < s ! n \<and> take (Suc n) s \<in> set S
         then s[n := s ! n - 1] else s)"

definition spec_removePart :: "nat list list \<Rightarrow> nat list \<Rightarrow> nat list list" where
  "spec_removePart S l = map (spec_renumber S l) (filter (\<lambda>s. take (length l) s \<noteq> l) S)"

text \<open>
  The loop of \<open>removePart\<close> on segment lists, for the proofs: one renaming of the prefix
  \<open>p.k\<close> to \<open>p.(k-1)\<close>, one step of \<open>siblings.forEach\<close>, the comparator of
  \<open>siblings.sort\<close>, and the effect of all steps at once for the sibling numbers \<open>ks\<close>.
\<close>

definition abs_rename :: "nat list \<Rightarrow> nat \<Rightarrow> nat list \<Rightarrow> nat list" where
  "abs_rename p k s =
     (if take (length p + 1) s = p @ [k] then p @ (k - 1) # drop (length p + 1) s else s)"

definition abs_step :: "nat list \<Rightarrow> nat \<Rightarrow> nat \<Rightarrow> nat list list \<Rightarrow> nat list list" where
  "abs_step p r k X = (if r < k then map (abs_rename p k) X else X)"

definition last_cmp :: "nat list \<Rightarrow> nat list \<Rightarrow> int option" where
  "last_cmp a b = Some (int (last a) - int (last b))"

definition renumbered :: "nat list \<Rightarrow> nat \<Rightarrow> nat list \<Rightarrow> nat list \<Rightarrow> nat list" where
  "renumbered p r ks s =
     (if length p < length s \<and> take (length p) s = p \<and> s ! length p \<in> set ks \<and> r < s ! length p
      then p @ (s ! length p - 1) # drop (length p + 1) s else s)"

section \<open>Theorems\<close>

subsection \<open>Vertical stitching\<close>









subsection \<open>Stage to document role\<close>

text \<open>
  C6 (as stated, refuted): the claim makes every integer outside \<open>0..8\<close> invalid.
  A negative stage passes the first guard \<open>current_stage <= 2\<close> and is mapped to
  index 0, the question paper.
\<close>

theorem C6_negative_stage_is_question_paper:
  "getDocStage (- 1) = 0 \<and> document_type_of (- 1) = Some ''question_paper''"
  by (simp add: getDocStage_def document_type_of_def array_get_def stages_def)

text \<open>
  C6 (amended): the function is total and pure; every stage at most 2 (negative ones
  included) is the question paper, 3 the marking scheme, 4 the solution script,
  5 to 8 the answer script, and every stage above 8 gives the index \<open>-1\<close>, which
  selects no role.
\<close>

theorem C6_document_type_of_stage:
  "document_type_of s =
     (if s \<le> 2 then Some ''question_paper''
      else if s = 3 then Some ''marking_scheme''
      else if s = 4 then Some ''solution_script''
      else if s \<le> 8 then Some ''answer_script''
      else None)
   \<and> (getDocStage s = - 1 \<longleftrightarrow> 8 < s)"
  by (simp add: getDocStage_def document_type_of_def array_get_def stages_def)

subsection \<open>Deleting a region\<close>





lemma ids_renumber_region: "map regionId (renumber_region a n rs) = map regionId rs"
  by (induction rs) simp_all

lemma ids_number_loop: "map regionId (number_loop ws i rs) = map regionId rs"
  by (induction ws arbitrary: i rs) (simp_all add: ids_renumber_region)

lemma kinds_renumber_region:
  "map (\<lambda>r. (regionId r, selectEl r, partSelect r)) (renumber_region a n rs)
     = map (\<lambda>r. (regionId r, selectEl r, partSelect r)) rs"
  by (induction rs) simp_all

lemma kinds_number_loop:
  "map (\<lambda>r. (regionId r, selectEl r, partSelect r)) (number_loop ws i rs)
     = map (\<lambda>r. (regionId r, selectEl r, partSelect r)) rs"
  by (induction ws arbitrary: i rs) (simp_all add: kinds_renumber_region)









subsection \<open>Ending a selection\<close>

lemma addRegionSelection_fields:
  "regionCounter (addRegionSelection img s) = regionCounter s + 1"
  "markers (addRegionSelection img s) = markers s @ [regionCounter s]"
  "sidebar (addRegionSelection img s) = sidebar s @ [(regionCounter s, img)]"
  "map (\<lambda>r. (regionId r, selectEl r, partSelect r)) (regionSelections (addRegionSelection img s))
     = map (\<lambda>r. (regionId r, selectEl r, partSelect r)) (regionSelections s)
       @ [(regionCounter s, Text, if q_parts (currentQuestion s) \<noteq> [] then Some [] else None)]"
  "isSelecting (addRegionSelection img s) = isSelecting s"
  by (simp_all add: addRegionSelection_def Let_def updateRegionNumbers_def kinds_number_loop)







text \<open>
  The agreement of region list and sidebar holds in the states the controller reaches:
  adding a region keeps it, as deleting does, and it implies the hypothesis of the
  deletion theorem for every id.
\<close>

lemma store_consistent_agree_except: "store_consistent s \<Longrightarrow> agree_except rid s"
  by (simp add: store_consistent_def agree_except_def)

lemma addRegionSelection_consistent:
  assumes "store_consistent s" "ids_below_counter s"
  shows "store_consistent (addRegionSelection img s)"
proof -
  let ?s' = "addRegionSelection img s"
  have ids: "map regionId (regionSelections ?s') = map regionId (regionSelections s) @ [regionCounter s]"
    by (simp add: addRegionSelection_def Let_def updateRegionNumbers_def ids_number_loop)
  have sb: "map fst (sidebar ?s') = map fst (sidebar s) @ [regionCounter s]"
    by (simp add: addRegionSelection_fields)
  have fresh: "regionCounter s \<notin> set (map regionId (regionSelections s))"
    using assms(2) by (auto simp: ids_below_counter_def list_all_iff)
  from assms(1) have d: "distinct (map regionId (regionSelections s))"
    and dw: "distinct (map fst (sidebar s))"
    and eq: "set (map fst (sidebar s)) = set (map regionId (regionSelections s))"
    by (simp_all add: store_consistent_def)
  from d fresh have 1: "distinct (map regionId (regionSelections ?s'))" by (simp only: ids) simp
  from dw fresh eq have 2: "distinct (map fst (sidebar ?s'))" by (simp only: sb) simp
  from eq have 3: "set (map fst (sidebar ?s')) = set (map regionId (regionSelections ?s'))"
    by (simp only: ids sb) simp
  from 1 2 3 show ?thesis by (simp only: store_consistent_def)
qed

subsection \<open>Final submission\<close>

text \<open>
  C7 (the code departs from the claim): the extract call is issued for the answer script
  only, and a failed \<open>fetch\<close> ends in the failure alert with no stage write. A response
  with a non-success status and a JSON body is not told apart from a success:
  \<open>procRes.ok\<close> is never read, the stage is written to 7 and the grading request goes out.
\<close>

theorem C7_failed_status_still_advances:
  "handleSubmit_requests ''answer_script'' [] (Response False True)
     = [PostProcessTextImages,
        AlertMessage ''Responses submitted and processed successfully!'',
        PostExamStage 7, PostGradeExam]
   \<and> handleSubmit_requests ''answer_script'' [] NetworkError
     = [PostProcessTextImages,
        AlertMessage ''Processing/Extraction of text from individual question images failed.'']
   \<and> handleSubmit_requests ''marking_scheme'' [] (Response True True)
     = [AlertMessage ''Responses submitted successfully!'']"
  by (simp add: handleSubmit_requests_def json_resolves_def postExamStage_def)

subsection \<open>Assembly of one question and the merge at submission\<close>

lemma fst_shift: "fst (shift x y q) = fst q"
  by (simp add: shift_def split_beta)

lemma sources_draw_loop:
  "concat (map (\<lambda>p. map (\<lambda>q. fst (shift (fst (snd p)) (snd (snd p)) q)) (painted (fst p)))
             (draw_loop mw imgs y0))
     = concat (map (\<lambda>img. map fst (painted img)) imgs)"
  by (induction imgs arbitrary: y0) (simp_all add: fst_shift)

lemma sources_concatenateImages:
  "map fst (painted (concatenateImages imgs)) = concat (map (\<lambda>img. map fst (painted img)) imgs)"
  by (simp add: concatenateImages_def drawImage_calls_def split_beta map_concat comp_def
      sources_draw_loop)

lemma show_nat_Suc_0: "show_nat (Suc 0) = ''1''"
  by (simp add: show_nat.simps digit_chr_def digits_def)

lemma saveCurrentSelections_scenario:
  "saveCurrentSelections mt (two_text_regions mainImg partImg) (createTempResponse question_one)
     = Inr (scenario_response mt mainImg partImg)"
  by (simp add: saveCurrentSelections_def two_text_regions_def createTempResponse_def question_one_def
      region_part_def push_def empty_bucket_def text_stack_def show_nat_Suc_0 Let_def
      scenario_response_def)

text \<open>
  C8 (as stated, refuted): with one Text region for the question and one for part 1.1,
  the merged text image of the submission carries two captions, the question's and the
  part's, not one: \<open>handleSubmit\<close> stitches the stored composites, and the part's
  composite begins with its own caption.
\<close>

theorem C8_two_captions_in_merged_image:
  "(case saveCurrentSelections (\<lambda>t. 200) (two_text_regions (page_crop 0 0 100 50) (page_crop 0 60 80 30))
           (createTempResponse question_one) of
      Inl e \<Rightarrow> False
    | Inr response \<Rightarrow>
        map captions_of (text_images (process_response (\<lambda>t. 200) 0 response))
          = [[''Question Number 1'', ''Part 1.1'']])"
  by (simp add: saveCurrentSelections_scenario scenario_response_def process_response_def
      captions_of_def sources_concatenateImages createTextImage_def page_crop_def Let_def
      concatenateImages_def drawImage_calls_def shift_def)

text \<open>
  C8 (amended): finishing the question gives a response whose \<open>text_images\<close> has one
  entry (question caption above the main region) and whose first part has one entry
  (part caption above the part's region). The submission merges the two composites into
  one text image: top to bottom the question caption, the main region, the caption
  \<open>Part 1.1\<close> and the part's region. For every response the table and diagram lists of
  the payload are the question's own followed by those of the parts in order, the images
  themselves unchanged.
\<close>

theorem C8_assembly_and_merge:
  "saveCurrentSelections mt (two_text_regions mainImg partImg) (createTempResponse question_one)
     = Inr (scenario_response mt mainImg partImg)
   \<and> length (text_images (scenario_response mt mainImg partImg)) = 1
   \<and> length (text_images (parts (scenario_response mt mainImg partImg) ! 0)) = 1
   \<and> text_images (process_response mt idx (scenario_response mt mainImg partImg))
       = [concatenateImages
            [concatenateImages [createTextImage mt ''Question Number 1'', mainImg],
             concatenateImages [createTextImage mt ''Part 1.1'', partImg]]]
   \<and> map (\<lambda>img. map fst (painted img))
         (text_images (process_response mt idx (scenario_response mt mainImg partImg)))
       = [Caption ''Question Number 1'' # map fst (painted mainImg)
            @ Caption ''Part 1.1'' # map fst (painted partImg)]
   \<and> table_images (process_response mt idx response)
       = table_images response @ concat (map table_images (parts response))
   \<and> diagram_images (process_response mt idx response)
       = diagram_images response @ concat (map diagram_images (parts response))"
  by (simp add: saveCurrentSelections_scenario)
     (simp add: scenario_response_def process_response_def sources_concatenateImages
        createTextImage_def Let_def)

subsection \<open>Splitting and joining at dots\<close>

lemma split_dot_not_Nil: "split_dot s \<noteq> []"
  by (induction s) (auto split: list.splits)

lemma split_dot_append_dot: "split_dot (a @ CHR ''.'' # b) = split_dot a @ split_dot b"
proof (induction a)
  case Nil
  then show ?case by simp
next
  case (Cons c a)
  then show ?case
    using split_dot_not_Nil [of a] by (cases "split_dot a") auto
qed

lemma split_dot_no_dot: "CHR ''.'' \<notin> set s \<Longrightarrow> split_dot s = [s]"
  by (induction s) auto



lemma split_dot_join_dot:
  "ws \<noteq> [] \<Longrightarrow> \<forall>w \<in> set ws. CHR ''.'' \<notin> set w \<Longrightarrow> split_dot (join_dot ws) = ws"
proof (induction ws rule: join_dot.induct)
  case 1
  then show ?case by simp
next
  case (2 w)
  then show ?case by (simp add: split_dot_no_dot)
next
  case (3 w v ws)
  then show ?case by (simp add: split_dot_append_dot split_dot_no_dot)
qed

lemma join_dot_append:
  "xs \<noteq> [] \<Longrightarrow> ys \<noteq> [] \<Longrightarrow> join_dot (xs @ ys) = join_dot xs @ CHR ''.'' # join_dot ys"
proof (induction xs rule: join_dot.induct)
  case 1
  then show ?case by simp
next
  case (2 w)
  then show ?case by (cases ys) simp_all
next
  case (3 w v ws)
  then show ?case by simp
qed

lemma startsWith_iff: "startsWith s p \<longleftrightarrow> (\<exists>r. s = p @ r)"
  by (induction s p rule: startsWith.induct) auto



lemma lastIndexOf_dot_no_dot: "CHR ''.'' \<notin> set s \<Longrightarrow> lastIndexOf_dot s = - 1"
  by (induction s) (auto simp: Let_def)

lemma lastIndexOf_dot_ge: "- 1 \<le> lastIndexOf_dot s"
  by (induction s) (auto simp: Let_def)

lemma lastIndexOf_dot_append:
  "CHR ''.'' \<notin> set b \<Longrightarrow> lastIndexOf_dot (a @ CHR ''.'' # b) = int (length a)"
proof (induction a)
  case Nil
  then show ?case by (simp add: lastIndexOf_dot_no_dot Let_def)
next
  case (Cons c a)
  then show ?case by (simp add: Let_def)
qed

subsection \<open>Decimal numerals\<close>

lemma digit_chr_in_digits: "digit_chr d \<in> set digits"
proof -
  have "d mod 10 < length digits" by (simp add: digits_def)
  then show ?thesis unfolding digit_chr_def by (rule nth_mem)
qed

lemma is_digit_digit_chr: "is_digit (digit_chr d)"
  by (simp add: is_digit_def digit_chr_in_digits)

lemma lt_10_cases:
  "d < (10::nat) \<Longrightarrow> d = 0 \<or> d = 1 \<or> d = 2 \<or> d = 3 \<or> d = 4 \<or> d = 5 \<or> d = 6 \<or> d = 7 \<or> d = 8 \<or> d = 9"
  by arith

lemma digit_val_digit_chr: "d < 10 \<Longrightarrow> digit_val (digit_chr d) = d"
  using lt_10_cases [of d] by (auto simp: digit_val_def digit_chr_def digits_def)

lemma is_digit_not_dot: "is_digit c \<Longrightarrow> c \<noteq> CHR ''.''"
  by (auto simp: is_digit_def digits_def)

lemma is_digit_not_space: "is_digit c \<Longrightarrow> \<not> is_space c"
  by (auto simp: is_digit_def digits_def is_space_def)

lemma is_digit_not_sign: "is_digit c \<Longrightarrow> c \<noteq> CHR ''-'' \<and> c \<noteq> CHR ''+''"
  by (auto simp: is_digit_def digits_def)

lemma show_nat_digits: "list_all is_digit (show_nat n)"
proof (induction n rule: show_nat.induct)
  case (1 n)
  then show ?case by (subst show_nat.simps) (simp add: is_digit_digit_chr)
qed

lemma show_nat_not_Nil: "show_nat n \<noteq> []"
  by (subst show_nat.simps) simp

lemma show_nat_no_dot: "CHR ''.'' \<notin> set (show_nat n)"
  using show_nat_digits [of n] is_digit_not_dot by (auto simp: list_all_iff)

lemma digits_val_snoc: "digits_val (ds @ [c]) = 10 * digits_val ds + digit_val c"
  by (simp add: digits_val_def)

lemma digits_val_show_nat: "digits_val (show_nat n) = n"
proof (induction n rule: show_nat.induct)
  case (1 n)
  show ?case
  proof (cases "n < 10")
    case True
    then show ?thesis
      by (subst show_nat.simps) (simp add: digits_val_def digit_val_digit_chr)
  next
    case False
    with 1 have "digits_val (show_nat (n div 10)) = n div 10" by simp
    with False show ?thesis
      by (subst show_nat.simps) (simp add: digits_val_snoc digit_val_digit_chr)
  qed
qed

lemma show_nat_inj: "show_nat m = show_nat n \<Longrightarrow> m = n"
  by (metis digits_val_show_nat)

lemma parseInt_show_nat: "parseInt (show_nat n) = Some (int n)"
proof -
  obtain c cs where s: "show_nat n = c # cs"
    using show_nat_not_Nil [of n] by (cases "show_nat n") auto
  have d: "list_all is_digit (c # cs)" using show_nat_digits [of n] s by simp
  then have c: "is_digit c" by simp
  have tw: "takeWhile is_digit cs = cs"
    using d by (simp add: list_all_iff takeWhile_eq_all_conv)
  have "parseInt (c # cs) = Some (int (digits_val (c # cs)))"
    unfolding parseInt_def
    using c is_digit_not_space [OF c] is_digit_not_sign [OF c]
    by (simp add: Let_def tw)
  then show ?thesis using s digits_val_show_nat [of n] by simp
qed


lemma show_int_int: "show_int (int n) = show_nat n"
  by (simp add: show_int_def)


subsection \<open>Depth and branching limits\<close>

lemma mset_insert_js: "mset (insert_js cmp x ys) = add_mset x (mset ys)"
  by (induction ys) simp_all

lemma mset_sort_js: "mset (sort_js cmp xs) = mset xs"
  by (induction xs) (simp_all add: sort_js_def mset_insert_js)







lemma depth_pos: "0 < depth s"
  using split_dot_not_Nil [of s] by (simp add: depth_def)










subsection \<open>Rendered labels\<close>

lemma split_dot_render: "l \<noteq> [] \<Longrightarrow> split_dot (render l) = map show_nat l"
  by (simp add: render_def split_dot_join_dot show_nat_no_dot)

lemma render_append:
  "p \<noteq> [] \<Longrightarrow> q \<noteq> [] \<Longrightarrow> render (p @ q) = render p @ CHR ''.'' # render q"
  by (simp add: render_def join_dot_append)

lemma render_single: "render [k] = show_nat k"
  by (simp add: render_def)

lemma render_not_Nil: "l \<noteq> [] \<Longrightarrow> render l \<noteq> []"
proof (cases l)
  case Nil
  then show "l \<noteq> [] \<Longrightarrow> render l \<noteq> []" by simp
next
  case (Cons k ks)
  show "render l \<noteq> []"
  proof (cases ks)
    case Nil
    with Cons show ?thesis by (simp add: render_single show_nat_not_Nil)
  next
    case (Cons j js)
    with \<open>l = k # ks\<close> have "render l = render [k] @ CHR ''.'' # render ks"
      using render_append [of "[k]" ks] by simp
    then show ?thesis by simp
  qed
qed

lemma map_show_nat_inj: "map show_nat a = map show_nat b \<Longrightarrow> a = b"
proof (induction a arbitrary: b)
  case Nil
  then show ?case by simp
next
  case (Cons x xs)
  then obtain y ys where "b = y # ys" by (cases b) auto
  with Cons show ?case by (auto dest: show_nat_inj)
qed

lemma render_inj: "a \<noteq> [] \<Longrightarrow> b \<noteq> [] \<Longrightarrow> render a = render b \<Longrightarrow> a = b"
  using split_dot_render [of a] split_dot_render [of b] by (auto dest: map_show_nat_inj)

subsection \<open>The comparator of sortPartLabels\<close>








subsection \<open>Insertion sort on segment lists\<close>

lemma set_insert_js: "set (insert_js cmp x ys) = insert x (set ys)"
  by (induction ys) auto






subsection \<open>The renumbering on segment lists\<close>

subsection \<open>Shape of the renumbering\<close>

lemma spec_renumber_at:
  "spec_renumber S (p @ [r]) (p @ k # rest) =
     (if r < k \<and> p @ [k] \<in> set S then p @ (k - 1) # rest else p @ k # rest)"
  by (simp add: spec_renumber_def Let_def nth_append list_update_append)

lemma decompose_below:
  assumes "length p < length s" "take (length p) s = p"
  shows "\<exists>k rest. s = p @ k # rest"
proof -
  have "s = take (length p) s @ s ! length p # drop (Suc (length p)) s"
    using assms(1) by (rule id_take_nth_drop)
  with assms(2) show ?thesis by metis
qed

lemma spec_renumber_other:
  assumes "\<not> (\<exists>k rest. s = p @ k # rest)"
  shows "spec_renumber S (p @ [r]) s = s"
proof -
  have "\<not> (length p < length s \<and> take (length p) s = p)"
    using assms decompose_below by blast
  then show ?thesis by (auto simp: spec_renumber_def Let_def)
qed

lemma removed_iff: "take (length (p @ [r])) s = p @ [r] \<longleftrightarrow> (\<exists>rest. s = p @ r # rest)"
proof
  assume "take (length (p @ [r])) s = p @ [r]"
  then have "s = (p @ [r]) @ drop (length (p @ [r])) s" by (metis append_take_drop_id)
  then show "\<exists>rest. s = p @ r # rest" by auto
next
  assume "\<exists>rest. s = p @ r # rest"
  then show "take (length (p @ [r])) s = p @ [r]" by auto
qed

subsection \<open>The invariants of a label set\<close>

lemma valid_labels_iff:
  "valid_labels S \<longleftrightarrow>
     distinct S \<and>
     (\<forall>s \<in> set S. 2 \<le> length s \<and> length s \<le> 6 \<and> (\<forall>k \<in> set s. 1 \<le> k) \<and> last s \<le> 6) \<and>
     (\<forall>s \<in> set S. \<forall>j. 1 \<le> j \<and> j < last s \<longrightarrow> butlast s @ [j] \<in> set S)"
  by (auto simp: valid_labels_def list_all_iff)

lemma interval_of_closed:
  assumes "finite C" "\<forall>j \<in> C. 1 \<le> j" "\<forall>j \<in> C. \<forall>i. 1 \<le> i \<and> i < j \<longrightarrow> i \<in> C"
  shows "\<exists>m::nat. C = {1..m}"
proof (cases "C = {}")
  case True
  then have "C = {1..0}" by simp
  then show ?thesis ..
next
  case False
  have "C = {1..Max C}"
  proof (rule set_eqI)
    fix i
    show "i \<in> C \<longleftrightarrow> i \<in> {1..Max C}"
    proof
      assume "i \<in> C"
      with assms(1,2) show "i \<in> {1..Max C}" by simp
    next
      assume i: "i \<in> {1..Max C}"
      have m: "Max C \<in> C" using assms(1) False by (rule Max_in)
      show "i \<in> C"
      proof (cases "i = Max C")
        case True
        with m show ?thesis by simp
      next
        case False
        with i have "1 \<le> i \<and> i < Max C" by simp
        with assms(3) m show ?thesis by blast
      qed
    qed
  qed
  then show ?thesis ..
qed

lemma children_interval:
  assumes "valid_labels S"
  shows "\<exists>m. {j. q @ [j] \<in> set S} = {1..m}"
proof (rule interval_of_closed)
  let ?C = "{j. q @ [j] \<in> set S}"
  have "inj_on (\<lambda>j. q @ [j]) ?C" by (simp add: inj_on_def)
  moreover have "(\<lambda>j. q @ [j]) ` ?C \<subseteq> set S" by auto
  ultimately show "finite ?C" by (metis finite_imageD finite_subset List.finite_set)
  show "\<forall>j \<in> ?C. 1 \<le> j"
  proof
    fix j assume "j \<in> ?C"
    then have "q @ [j] \<in> set S" by simp
    with assms have "\<forall>k \<in> set (q @ [j]). 1 \<le> k" unfolding valid_labels_iff by blast
    then show "1 \<le> j" by simp
  qed
  show "\<forall>j \<in> ?C. \<forall>i. 1 \<le> i \<and> i < j \<longrightarrow> i \<in> ?C"
  proof (intro ballI allI impI)
    fix j i assume "j \<in> ?C" and i: "1 \<le> i \<and> i < j"
    then have m: "q @ [j] \<in> set S" by simp
    from assms have "\<forall>s \<in> set S. \<forall>j. 1 \<le> j \<and> j < last s \<longrightarrow> butlast s @ [j] \<in> set S"
      unfolding valid_labels_iff by blast
    with m i have "butlast (q @ [j]) @ [i] \<in> set S" by (metis last_snoc)
    then show "i \<in> ?C" by simp
  qed
qed

lemma mem_spec_removePart:
  "x \<in> set (spec_removePart S (p @ [r])) \<longleftrightarrow>
     (\<exists>s. s \<in> set S \<and> \<not> (\<exists>rest. s = p @ r # rest) \<and> x = spec_renumber S (p @ [r]) s)"
proof -
  have "set (spec_removePart S (p @ [r]))
          = spec_renumber S (p @ [r]) ` {s \<in> set S. \<not> (\<exists>rest. s = p @ r # rest)}"
    by (simp only: spec_removePart_def set_map set_filter removed_iff)
  then show ?thesis by (simp only: image_iff mem_Collect_eq) blast
qed

lemma kept_unchanged:
  assumes "s \<in> set S" "\<not> (\<exists>rest. s = p @ r # rest)" "spec_renumber S (p @ [r]) s = s"
  shows "s \<in> set (spec_removePart S (p @ [r]))"
proof -
  have "\<exists>t. t \<in> set S \<and> \<not> (\<exists>rest. t = p @ r # rest) \<and> s = spec_renumber S (p @ [r]) t"
    using assms by (intro exI [of _ s]) simp
  then show ?thesis by (simp only: mem_spec_removePart)
qed

lemma kept_renumbered:
  assumes "p @ k # rest \<in> set S" "r < k" "p @ [k] \<in> set S"
  shows "p @ (k - 1) # rest \<in> set (spec_removePart S (p @ [r]))"
proof -
  have a: "\<not> (\<exists>rest'. p @ k # rest = p @ r # rest')" using assms(2) by simp
  have b: "spec_renumber S (p @ [r]) (p @ k # rest) = p @ (k - 1) # rest"
    using assms(2,3) by (simp add: spec_renumber_at)
  have "\<exists>t. t \<in> set S \<and> \<not> (\<exists>rest'. t = p @ r # rest')
            \<and> p @ (k - 1) # rest = spec_renumber S (p @ [r]) t"
    using assms(1) a b by (intro exI [of _ "p @ k # rest"]) simp
  then show ?thesis by (simp only: mem_spec_removePart)
qed

lemma no_shape_butlast_snoc:
  assumes "s \<noteq> []" "\<not> (\<exists>k rest. s = p @ k # rest)"
  shows "\<not> (\<exists>k rest. butlast s @ [j] = p @ k # rest)"
proof
  assume "\<exists>k rest. butlast s @ [j] = p @ k # rest"
  then obtain k rest where e: "butlast s @ [j] = p @ k # rest" by blast
  have s: "s = butlast s @ [last s]" using assms(1) by simp
  show False
  proof (cases "rest = []")
    case True
    with e have "butlast s = p" by simp
    with s have "s = p @ last s # []" by simp
    with assms(2) show False by blast
  next
    case False
    then have "rest = butlast rest @ [last rest]" by simp
    with e have "butlast s @ [j] = (p @ k # butlast rest) @ [last rest]" by simp
    then have "butlast s = p @ k # butlast rest" by (simp only: append1_eq_conv)
    with s have "s = p @ k # (butlast rest @ [last s])" by simp
    with assms(2) show False by blast
  qed
qed

lemma closed_spec_removePart:
  assumes cl: "\<forall>s \<in> set S. \<forall>j. 1 \<le> j \<and> j < last s \<longrightarrow> butlast s @ [j] \<in> set S"
    and ne: "\<forall>s \<in> set S. s \<noteq> []"
    and l: "p @ [r] \<in> set S"
    and x: "x \<in> set (spec_removePart S (p @ [r]))"
    and j: "1 \<le> j" "j < last x"
  shows "butlast x @ [j] \<in> set (spec_removePart S (p @ [r]))"
proof -
  let ?R = "spec_removePart S (p @ [r])"
  let ?f = "spec_renumber S (p @ [r])"
  have down: "butlast s @ [i] \<in> set S" if "s \<in> set S" "1 \<le> i" "i < last s" for s i
    using cl that by blast
  have sib: "p @ [i] \<in> set S" if "p @ [k] \<in> set S" "1 \<le> i" "i < k" for i k
    using down [of "p @ [k]" i] that by simp
  from x obtain s where s: "s \<in> set S" "\<not> (\<exists>rest. s = p @ r # rest)" "x = ?f s"
    unfolding mem_spec_removePart by blast
  show ?thesis
  proof (cases "\<exists>k rest. s = p @ k # rest")
    case False
    then have "?f s = s" by (rule spec_renumber_other)
    with s(3) have xs: "x = s" by simp
    have m: "butlast s @ [j] \<in> set S" using s(1) j xs by (simp add: down)
    have sn: "s \<noteq> []" using ne s(1) by blast
    have nf: "\<not> (\<exists>k rest. butlast s @ [j] = p @ k # rest)"
      using sn False by (rule no_shape_butlast_snoc)
    then have nr: "\<not> (\<exists>rest. butlast s @ [j] = p @ r # rest)" by blast
    have fx: "?f (butlast s @ [j]) = butlast s @ [j]"
      using nf by (rule spec_renumber_other)
    from kept_unchanged [OF m nr fx] xs show ?thesis by simp
  next
    case True
    then obtain k rest where sk: "s = p @ k # rest" by blast
    with s(2) have kr: "k \<noteq> r" by blast
    show ?thesis
    proof (cases "r < k \<and> p @ [k] \<in> set S")
      case ch: True
      have "?f (p @ k # rest) = p @ (k - 1) # rest" using ch by (simp add: spec_renumber_at)
      with sk s(3) have xk: "x = p @ (k - 1) # rest" by simp
      show ?thesis
      proof (cases "rest = []")
        case True
        with xk have x1: "x = p @ [k - 1]" by simp
        have jk: "j < k - 1" using j(2) unfolding x1 by simp
        have bx: "butlast x @ [j] = p @ [j]" unfolding x1 by simp
        show ?thesis
        proof (cases "j < r")
          case True
          have m: "p @ [j] \<in> set S" using l j(1) True by (rule sib)
          have nr: "\<not> (\<exists>rest. p @ [j] = p @ r # rest)" using True by simp
          have fx: "?f (p @ [j]) = p @ [j]"
            using True spec_renumber_at [of S p r j "[]"] by simp
          from kept_unchanged [OF m nr fx] bx show ?thesis by simp
        next
          case False
          have sj: "Suc j < k" using jk by simp
          have "p @ [Suc j] \<in> set S" using conjunct2 [OF ch] _ sj by (rule sib) simp
          then have m: "p @ Suc j # [] \<in> set S" by simp
          have rj: "r < Suc j" using False by simp
          have m': "p @ [Suc j] \<in> set S" using m by simp
          from kept_renumbered [OF m rj m'] bx show ?thesis by simp
        qed
      next
        case False
        have ls: "last s = last x" unfolding sk xk using False by simp
        have bs: "butlast s = p @ k # butlast rest" unfolding sk using False by (simp add: butlast_append)
        have bx: "butlast x = p @ (k - 1) # butlast rest"
          unfolding xk using False by (simp add: butlast_append)
        have "butlast s @ [j] \<in> set S" using s(1) j ls by (simp add: down)
        then have m: "p @ k # (butlast rest @ [j]) \<in> set S" unfolding bs by simp
        from kept_renumbered [OF m conjunct1 [OF ch] conjunct2 [OF ch]] bx show ?thesis by simp
      qed
    next
      case un: False
      have "?f (p @ k # rest) = p @ k # rest" by (simp only: spec_renumber_at un if_False)
      with sk s(3) have xs: "x = s" by simp
      have m: "butlast s @ [j] \<in> set S" using s(1) j xs by (simp add: down)
      show ?thesis
      proof (cases "rest = []")
        case True
        with sk have s1: "s = p @ [k]" by simp
        with s(1) have "p @ [k] \<in> set S" by simp
        with un kr have kltr: "k < r" by simp
        have jk: "j < k" using j(2) unfolding xs s1 by simp
        have bs: "butlast s @ [j] = p @ [j]" unfolding s1 by simp
        have nr: "\<not> (\<exists>rest. butlast s @ [j] = p @ r # rest)" unfolding bs using jk kltr by simp
        have fx: "?f (butlast s @ [j]) = butlast s @ [j]"
          unfolding bs using jk kltr spec_renumber_at [of S p r j "[]"] by simp
        from kept_unchanged [OF m nr fx] xs show ?thesis by simp
      next
        case False
        have bs: "butlast s @ [j] = p @ k # (butlast rest @ [j])"
          unfolding sk using False by (simp add: butlast_append)
        have nr: "\<not> (\<exists>rest'. butlast s @ [j] = p @ r # rest')" unfolding bs using kr by simp
        have fx: "?f (butlast s @ [j]) = butlast s @ [j]"
          unfolding bs by (simp only: spec_renumber_at un if_False)
        from kept_unchanged [OF m nr fx] xs show ?thesis by simp
      qed
    qed
  qed
qed

lemma spec_renumber_cases:
  "(\<exists>k rest. s = p @ k # rest \<and> r < k \<and> p @ [k] \<in> set S
        \<and> spec_renumber S (p @ [r]) s = p @ (k - 1) # rest)
   \<or> spec_renumber S (p @ [r]) s = s"
proof (cases "\<exists>k rest. s = p @ k # rest")
  case False
  then have "spec_renumber S (p @ [r]) s = s" by (rule spec_renumber_other)
  then show ?thesis by simp
next
  case True
  then obtain k rest where sk: "s = p @ k # rest" by blast
  show ?thesis
  proof (cases "r < k \<and> p @ [k] \<in> set S")
    case True
    then have "spec_renumber S (p @ [r]) (p @ k # rest) = p @ (k - 1) # rest"
      by (simp add: spec_renumber_at)
    with sk True show ?thesis by blast
  next
    case False
    have "spec_renumber S (p @ [r]) (p @ k # rest) = p @ k # rest"
      by (simp only: spec_renumber_at False if_False)
    with sk show ?thesis by simp
  qed
qed

lemma spec_renumber_inj:
  assumes cl: "\<forall>s \<in> set S. \<forall>j. 1 \<le> j \<and> j < last s \<longrightarrow> butlast s @ [j] \<in> set S"
    and r: "1 \<le> r"
    and s1: "s1 \<in> set S" "\<not> (\<exists>rest. s1 = p @ r # rest)"
    and s2: "s2 \<in> set S" "\<not> (\<exists>rest. s2 = p @ r # rest)"
    and eq: "spec_renumber S (p @ [r]) s1 = spec_renumber S (p @ [r]) s2"
  shows "s1 = s2"
proof -
  let ?f = "spec_renumber S (p @ [r])"
  have sib: "p @ [k - 1] \<in> set S" if "p @ [k] \<in> set S" "r < k" for k
  proof -
    have "butlast (p @ [k]) @ [k - 1] \<in> set S"
      using cl that r by (simp del: butlast_snoc)
    then show ?thesis by simp
  qed
  have clash: False
    if a: "a \<in> set S" "a = p @ k # rest" "r < k" "p @ [k] \<in> set S"
      and b: "b \<in> set S" "\<not> (\<exists>rest. b = p @ r # rest)" "?f b = b" "b = p @ (k - 1) # rest"
    for a b k rest
  proof -
    have "k - 1 \<noteq> r" using b(2,4) by blast
    with a(3) have gt: "r < k - 1" by simp
    have "p @ [k - 1] \<in> set S" using a(4,3) by (rule sib)
    with gt have "?f (p @ (k - 1) # rest) = p @ (k - 1 - 1) # rest"
      by (simp add: spec_renumber_at)
    with b(3,4) have "k - 1 - 1 = k - 1" by simp
    with gt show False by simp
  qed
  from spec_renumber_cases [of s1 p r S] spec_renumber_cases [of s2 p r S]
  consider
    (cc) k1 rest1 k2 rest2 where "s1 = p @ k1 # rest1" "r < k1" "?f s1 = p @ (k1 - 1) # rest1"
      "s2 = p @ k2 # rest2" "r < k2" "?f s2 = p @ (k2 - 1) # rest2"
  | (cu) k1 rest1 where "s1 = p @ k1 # rest1" "r < k1" "p @ [k1] \<in> set S"
      "?f s1 = p @ (k1 - 1) # rest1" "?f s2 = s2"
  | (uc) k2 rest2 where "s2 = p @ k2 # rest2" "r < k2" "p @ [k2] \<in> set S"
      "?f s2 = p @ (k2 - 1) # rest2" "?f s1 = s1"
  | (uu) "?f s1 = s1" "?f s2 = s2"
    by blast
  then show ?thesis
  proof cases
    case cc
    with eq have "k1 - 1 = k2 - 1" "rest1 = rest2" by simp_all
    with cc(2,5) have "k1 = k2" by simp
    with cc(1,4) \<open>rest1 = rest2\<close> show ?thesis by simp
  next
    case cu
    with eq have "s2 = p @ (k1 - 1) # rest1" by simp
    from clash [OF s1(1) cu(1,2,3) s2(1,2) cu(5) this] show ?thesis ..
  next
    case uc
    with eq have "s1 = p @ (k2 - 1) # rest2" by simp
    from clash [OF s2(1) uc(1,2,3) s1(1,2) uc(5) this] show ?thesis ..
  next
    case uu
    with eq show ?thesis by simp
  qed
qed

lemma distinct_spec_removePart:
  assumes "distinct S"
    and cl: "\<forall>s \<in> set S. \<forall>j. 1 \<le> j \<and> j < last s \<longrightarrow> butlast s @ [j] \<in> set S"
    and r: "1 \<le> r"
  shows "distinct (spec_removePart S (p @ [r]))"
proof -
  let ?keep = "filter (\<lambda>s. take (length (p @ [r])) s \<noteq> p @ [r]) S"
  have "inj_on (spec_renumber S (p @ [r])) (set ?keep)"
  proof (rule inj_onI)
    fix a b
    assume a: "a \<in> set ?keep" and b: "b \<in> set ?keep"
      and e: "spec_renumber S (p @ [r]) a = spec_renumber S (p @ [r]) b"
    from a have a1: "a \<in> set S" and "take (length (p @ [r])) a \<noteq> p @ [r]" by simp_all
    then have a2: "\<not> (\<exists>rest. a = p @ r # rest)" by (simp only: removed_iff not_False_eq_True)
    from b have b1: "b \<in> set S" and "take (length (p @ [r])) b \<noteq> p @ [r]" by simp_all
    then have b2: "\<not> (\<exists>rest. b = p @ r # rest)" by (simp only: removed_iff not_False_eq_True)
    from spec_renumber_inj [OF cl r a1 a2 b1 b2 e] show "a = b" .
  qed
  moreover have "distinct ?keep" using assms(1) by simp
  ultimately show ?thesis by (simp only: spec_removePart_def distinct_map)
qed

lemma spec_renumber_bounds:
  assumes "1 \<le> r" "\<forall>k \<in> set s. 1 \<le> k" "s \<noteq> []"
  shows "length (spec_renumber S (p @ [r]) s) = length s
       \<and> (\<forall>k \<in> set (spec_renumber S (p @ [r]) s). 1 \<le> k)
       \<and> last (spec_renumber S (p @ [r]) s) \<le> last s"
proof -
  from spec_renumber_cases [of s p r S]
  consider (c) k rest where "s = p @ k # rest" "r < k"
      "spec_renumber S (p @ [r]) s = p @ (k - 1) # rest"
    | (u) "spec_renumber S (p @ [r]) s = s"
    by blast
  then show ?thesis
  proof cases
    case c
    have "1 \<le> k - 1" using c(2) assms(1) by simp
    moreover have "\<forall>i \<in> set p \<union> set rest. 1 \<le> i" using assms(2) c(1) by simp
    moreover have "last (p @ (k - 1) # rest) \<le> last (p @ k # rest)" by simp
    ultimately show ?thesis using c by auto
  next
    case u
    with assms show ?thesis by simp
  qed
qed

lemma valid_spec_removePart:
  assumes v: "valid_labels S" and l: "l \<in> set S"
  shows "valid_labels (spec_removePart S l)"
proof -
  from v have d: "distinct S"
    and b: "\<forall>s \<in> set S. 2 \<le> length s \<and> length s \<le> 6 \<and> (\<forall>k \<in> set s. 1 \<le> k) \<and> last s \<le> 6"
    and cl: "\<forall>s \<in> set S. \<forall>j. 1 \<le> j \<and> j < last s \<longrightarrow> butlast s @ [j] \<in> set S"
    unfolding valid_labels_iff by blast+
  from b l have ll: "2 \<le> length l" and lp: "\<forall>k \<in> set l. 1 \<le> k" by blast+
  then have ln: "l \<noteq> []" by auto
  define p where "p = butlast l"
  define r where "r = last l"
  have lpr: "l = p @ [r]" using ln by (simp add: p_def r_def)
  have r1: "1 \<le> r" using lp ln by (simp add: r_def)
  have ne: "\<forall>s \<in> set S. s \<noteq> []" using b by auto
  let ?R = "spec_removePart S (p @ [r])"
  have 1: "distinct ?R" using d cl r1 by (rule distinct_spec_removePart)
  have 2: "\<forall>x \<in> set ?R. 2 \<le> length x \<and> length x \<le> 6 \<and> (\<forall>k \<in> set x. 1 \<le> k) \<and> last x \<le> 6"
  proof
    fix x assume "x \<in> set ?R"
    then obtain s where s: "s \<in> set S" "x = spec_renumber S (p @ [r]) s"
      unfolding mem_spec_removePart by blast
    from b s(1) have bs: "2 \<le> length s" "length s \<le> 6" "\<forall>k \<in> set s. 1 \<le> k" "last s \<le> 6"
      by blast+
    from ne s(1) have "s \<noteq> []" by blast
    from spec_renumber_bounds [OF r1 bs(3) this, of S p] bs s(2)
    show "2 \<le> length x \<and> length x \<le> 6 \<and> (\<forall>k \<in> set x. 1 \<le> k) \<and> last x \<le> 6"
      by simp
  qed
  have 3: "\<forall>x \<in> set ?R. \<forall>j. 1 \<le> j \<and> j < last x \<longrightarrow> butlast x @ [j] \<in> set ?R"
  proof (intro ballI allI impI)
    fix x j assume x: "x \<in> set ?R" and j: "1 \<le> j \<and> j < last x"
    from l lpr have "p @ [r] \<in> set S" by simp
    from closed_spec_removePart [OF cl ne this x conjunct1 [OF j] conjunct2 [OF j]]
    show "butlast x @ [j] \<in> set ?R" .
  qed
  from 1 2 3 have "valid_labels ?R" unfolding valid_labels_iff by blast
  then show ?thesis by (simp only: lpr)
qed

subsection \<open>String operations on rendered labels\<close>

lemma render_decompose:
  assumes "l \<noteq> []" "take (length l) s = l" "length l < length s"
  shows "render s = render l @ CHR ''.'' # render (drop (length l) s)"
proof -
  have "s = l @ drop (length l) s" using assms(2) by (metis append_take_drop_id)
  moreover have "drop (length l) s \<noteq> []" using assms(3) by simp
  ultimately show ?thesis using render_append [OF assms(1), of "drop (length l) s"] by simp
qed

lemma startsWith_render_dot:
  assumes "s \<noteq> []" "l \<noteq> []"
  shows "startsWith (render s) (render l @ ''.'') \<longleftrightarrow> take (length l) s = l \<and> length l < length s"
proof
  assume "startsWith (render s) (render l @ ''.'')"
  then obtain t where t: "render s = render l @ CHR ''.'' # t" by (auto simp: startsWith_iff)
  have "split_dot (render s) = split_dot (render l) @ split_dot t"
    unfolding t by (rule split_dot_append_dot)
  then have m: "map show_nat s = map show_nat l @ split_dot t"
    using assms by (simp add: split_dot_render)
  then have "length s = length l + length (split_dot t)" by (metis length_append length_map)
  then have len: "length l < length s" using split_dot_not_Nil [of t] by simp
  from m have "take (length l) (map show_nat s) = map show_nat l" by simp
  then have "map show_nat (take (length l) s) = map show_nat l" by (simp add: take_map)
  then have "take (length l) s = l" by (rule map_show_nat_inj)
  with len show "take (length l) s = l \<and> length l < length s" by simp
next
  assume a: "take (length l) s = l \<and> length l < length s"
  then have "render s = render l @ CHR ''.'' # render (drop (length l) s)"
    using assms(2) by (intro render_decompose) simp_all
  then show "startsWith (render s) (render l @ ''.'')" by (simp add: startsWith_iff)
qed

lemma render_eq_iff: "a \<noteq> [] \<Longrightarrow> b \<noteq> [] \<Longrightarrow> render a = render b \<longleftrightarrow> a = b"
  using render_inj by blast

lemma subtree_render_iff:
  assumes "s \<noteq> []" "l \<noteq> []"
  shows "(render s = render l \<or> startsWith (render s) (render l @ ''.'')) \<longleftrightarrow> take (length l) s = l"
proof -
  have "take (length l) s = l \<longleftrightarrow> s = l \<or> (take (length l) s = l \<and> length l < length s)"
  proof (cases "length l < length s")
    case True
    then show ?thesis by auto
  next
    case False
    then have "take (length l) s = s" by simp
    with False show ?thesis by auto
  qed
  then show ?thesis
    using assms by (simp add: startsWith_render_dot render_eq_iff)
qed

lemma depth_render: "s \<noteq> [] \<Longrightarrow> length (split_dot (render s)) = length s"
  by (simp add: split_dot_render)

lemma is_direct_child_render:
  assumes "s \<noteq> []" "p \<noteq> []"
  shows "is_direct_child (render p) (length p) (render s)
           \<longleftrightarrow> take (length p) s = p \<and> length s = length p + 1"
  using assms by (auto simp: is_direct_child_def startsWith_render_dot depth_render)

lemma last_number_render: "s \<noteq> [] \<Longrightarrow> last_number (render s) = Some (int (last s))"
  by (simp add: last_number_def split_dot_render last_map parseInt_show_nat)

lemma render_snoc: "p \<noteq> [] \<Longrightarrow> render (p @ [k]) = render p @ CHR ''.'' # show_nat k"
  using render_append [of p "[k]"] by (simp add: render_single)

lemma lastIndexOf_dot_render: "p \<noteq> [] \<Longrightarrow> lastIndexOf_dot (render (p @ [k])) = int (length (render p))"
  by (simp add: render_snoc lastIndexOf_dot_append show_nat_no_dot)

lemma rename_render:
  assumes "s \<noteq> []" "p \<noteq> []" "1 \<le> k"
  shows "rename (render p @ ''.'' @ show_int (int k)) (render p @ ''.'' @ show_int (int k - 1)) (render s)
           = render (if take (length p + 1) s = p @ [k] then p @ (k - 1) # drop (length p + 1) s else s)"
proof -
  have old: "render p @ ''.'' @ show_int (int k) = render (p @ [k])"
    using assms(2) by (simp add: render_snoc show_int_int)
  have "int (k - 1) = int k - 1" using assms(3) by simp
  then have "show_int (int k - 1) = show_nat (k - 1)" using show_int_int [of "k - 1"] by simp
  then have new: "render p @ ''.'' @ show_int (int k - 1) = render (p @ [k - 1])"
    using assms(2) by (simp add: render_snoc)
  have sub: "(render s = render (p @ [k]) \<or> startsWith (render s) (render (p @ [k]) @ ''.''))
               \<longleftrightarrow> take (length p + 1) s = p @ [k]"
    using subtree_render_iff [OF assms(1), of "p @ [k]"] by simp
  have main: "rename (render (p @ [k])) (render (p @ [k - 1])) (render s)
           = render (if take (length p + 1) s = p @ [k] then p @ (k - 1) # drop (length p + 1) s else s)"
  proof (cases "take (length p + 1) s = p @ [k]")
    case False
    with sub show ?thesis by (simp only: rename_def if_False)
  next
    case True
    show ?thesis
    proof (cases "length s = length p + 1")
      case e: True
      with True have s: "s = p @ [k]" by simp
      show ?thesis unfolding s by (simp add: rename_def)
    next
      case False
      have "length p + 1 \<le> length s"
        using True by (metis length_append_singleton Suc_eq_plus1 length_take min.cobounded1)
      with False have len: "length (p @ [k]) < length s" by simp
      have t: "take (length (p @ [k])) s = p @ [k]" using True by simp
      have d: "render s = render (p @ [k]) @ CHR ''.'' # render (drop (length (p @ [k])) s)"
        using _ t len by (rule render_decompose) simp
      have dn: "drop (length (p @ [k])) s \<noteq> []" using len by simp
      have e1: "render (p @ (k - 1) # drop (length p + 1) s)
              = render (p @ [k - 1]) @ CHR ''.'' # render (drop (length (p @ [k])) s)"
        using render_append [of "p @ [k - 1]" "drop (length (p @ [k])) s"] dn by simp
      have sw: "startsWith (render s) (render (p @ [k]) @ ''.'')"
        unfolding d by (simp add: startsWith_iff)
      have e2: "rename (render (p @ [k])) (render (p @ [k - 1])) (render s)
              = render (p @ [k - 1]) @ drop (length (render (p @ [k]))) (render s)"
        using sw by (simp add: rename_def)
      have e3: "drop (length (render (p @ [k]))) (render s)
              = CHR ''.'' # render (drop (length (p @ [k])) s)"
        unfolding d by simp
      from e1 e2 e3 True show ?thesis by simp
    qed
  qed
  show ?thesis unfolding old new by (rule main)
qed

subsection \<open>The loop over the siblings, on segment lists\<close>

lemma abs_rename_at: "abs_rename p k (p @ j # rest) = (if j = k then p @ (k - 1) # rest else p @ j # rest)"
  by (simp add: abs_rename_def)

lemma abs_rename_other: "\<not> (\<exists>j rest. s = p @ j # rest) \<Longrightarrow> abs_rename p k s = s"
proof -
  assume a: "\<not> (\<exists>j rest. s = p @ j # rest)"
  have "take (length p + 1) s \<noteq> p @ [k]"
  proof
    assume t: "take (length p + 1) s = p @ [k]"
    then have "s = (p @ [k]) @ drop (length p + 1) s" by (metis append_take_drop_id)
    then have "s = p @ k # drop (length p + 1) s" by simp
    with a show False by blast
  qed
  then show ?thesis by (simp add: abs_rename_def)
qed

lemma abs_rename_not_Nil: "s \<noteq> [] \<Longrightarrow> abs_rename p k s \<noteq> []"
  by (simp add: abs_rename_def)

lemma renumbered_at:
  "renumbered p r ks (p @ j # rest) =
     (if j \<in> set ks \<and> r < j then p @ (j - 1) # rest else p @ j # rest)"
  by (simp add: renumbered_def)

lemma renumbered_other: "\<not> (\<exists>j rest. s = p @ j # rest) \<Longrightarrow> renumbered p r ks s = s"
proof -
  assume a: "\<not> (\<exists>j rest. s = p @ j # rest)"
  have "\<not> (length p < length s \<and> take (length p) s = p)"
    using a decompose_below by blast
  then show ?thesis by (auto simp: renumbered_def)
qed

lemma fold_abs_step:
  assumes "sorted_wrt (<) ks"
  shows "fold (abs_step p r) ks X = map (renumbered p r ks) X"
  using assms
proof (induction ks arbitrary: X)
  case Nil
  have "renumbered p r [] = (\<lambda>s. s)" by (rule ext) (simp add: renumbered_def)
  then show ?case by simp
next
  case (Cons k ks)
  from Cons.prems have sk: "sorted_wrt (<) ks" and gt: "\<forall>j \<in> set ks. k < j" by simp_all
  have ih: "fold (abs_step p r) ks Y = map (renumbered p r ks) Y" for Y
    using Cons.IH [OF sk] .
  have pt: "renumbered p r ks (if r < k then abs_rename p k s else s) = renumbered p r (k # ks) s" for s
  proof (cases "\<exists>j rest. s = p @ j # rest")
    case False
    then have "abs_rename p k s = s" by (rule abs_rename_other)
    moreover have "renumbered p r ks s = s" using False by (rule renumbered_other)
    moreover have "renumbered p r (k # ks) s = s" using False by (rule renumbered_other)
    ultimately show ?thesis by simp
  next
    case True
    then obtain j rest where s: "s = p @ j # rest" by blast
    show ?thesis
    proof (cases "r < k \<and> j = k")
      case True
      then have "k - 1 \<notin> set ks" using gt by auto
      with True show ?thesis unfolding s by (simp add: abs_rename_at renumbered_at)
    next
      case False
      then have a: "(if r < k then abs_rename p k (p @ j # rest) else p @ j # rest) = p @ j # rest"
        by (auto simp: abs_rename_at)
      have "(j \<in> set (k # ks) \<and> r < j) \<longleftrightarrow> (j \<in> set ks \<and> r < j)" using False by auto
      then show ?thesis unfolding s a by (simp only: renumbered_at)
    qed
  qed
  have "fold (abs_step p r) (k # ks) X = map (renumbered p r ks) (abs_step p r k X)"
    by (simp add: ih)
  also have "\<dots> = map (\<lambda>s. renumbered p r ks (if r < k then abs_rename p k s else s)) X"
    by (simp add: abs_step_def)
  also have "\<dots> = map (renumbered p r (k # ks)) X"
    by (simp only: pt)
  finally show ?case .
qed

subsection \<open>Sorting with a comparator\<close>

lemma sorted_insert_js_gen:
  assumes le: "\<And>a b. cmp_val (c a b) \<le> 0 \<longleftrightarrow> R a b"
    and total: "\<And>a b. R a b \<or> R b a"
    and trans: "\<And>a b d. R a b \<Longrightarrow> R b d \<Longrightarrow> R a d"
  shows "sorted_wrt R ys \<Longrightarrow> sorted_wrt R (insert_js c x ys)"
proof (induction ys)
  case Nil
  then show ?case by simp
next
  case (Cons y ys)
  show ?case
  proof (cases "R x y")
    case True
    with Cons.prems have "\<forall>z \<in> set ys. R x z" using trans by auto
    with True Cons.prems show ?thesis by (simp add: le)
  next
    case False
    then have "R y x" using total [of x y] by simp
    with False Cons show ?thesis by (simp add: le set_insert_js)
  qed
qed

lemma sorted_sort_js_gen:
  assumes le: "\<And>a b. cmp_val (c a b) \<le> 0 \<longleftrightarrow> R a b"
    and total: "\<And>a b. R a b \<or> R b a"
    and trans: "\<And>a b d. R a b \<Longrightarrow> R b d \<Longrightarrow> R a d"
  shows "sorted_wrt R (sort_js c xs)"
proof (induction xs)
  case Nil
  then show ?case by (simp add: sort_js_def)
next
  case (Cons x xs)
  have "sorted_wrt R (insert_js c x (sort_js c xs))"
    using le total trans Cons by (rule sorted_insert_js_gen)
  then show ?case by (simp add: sort_js_def)
qed

lemma set_sort_js: "set (sort_js c xs) = set xs"
  using mset_sort_js [of c xs] by (rule mset_eq_setD)

lemma insert_js_map:
  assumes "\<forall>y \<in> set ys. c1 (f x) (f y) = c2 x y"
  shows "insert_js c1 (f x) (map f ys) = map f (insert_js c2 x ys)"
  using assms by (induction ys) simp_all

lemma sort_js_map:
  assumes "\<forall>x \<in> set xs. \<forall>y \<in> set xs. c1 (f x) (f y) = c2 x y"
  shows "sort_js c1 (map f xs) = map f (sort_js c2 xs)"
  using assms
proof (induction xs)
  case Nil
  then show ?case by (simp add: sort_js_def)
next
  case (Cons x xs)
  then have ih: "sort_js c1 (map f xs) = map f (sort_js c2 xs)" by simp
  have "\<forall>y \<in> set (sort_js c2 xs). c1 (f x) (f y) = c2 x y"
    using Cons.prems by (simp add: set_sort_js)
  then have "insert_js c1 (f x) (map f (sort_js c2 xs)) = map f (insert_js c2 x (sort_js c2 xs))"
    by (rule insert_js_map)
  with ih show ?case by (simp add: sort_js_def)
qed

lemma sorted_by_last: "sorted (map last (sort_js last_cmp xs))"
proof -
  have "sorted_wrt (\<lambda>a b. last a \<le> last b) (sort_js last_cmp xs)"
  proof (rule sorted_sort_js_gen)
    show "cmp_val (last_cmp a b) \<le> 0 \<longleftrightarrow> last a \<le> last b" for a b :: "nat list"
      by (simp add: last_cmp_def cmp_val_def)
    show "last a \<le> last b \<or> last b \<le> last a" for a b :: "nat list" by linarith
    show "last a \<le> last b \<Longrightarrow> last b \<le> last d \<Longrightarrow> last a \<le> last d" for a b d :: "nat list"
      by simp
  qed
  then show ?thesis by (simp add: sorted_map)
qed

subsection \<open>removePart on rendered labels\<close>

lemma renumber_step_render:
  assumes "sb \<noteq> []" "p \<noteq> []" "\<forall>x \<in> set X. x \<noteq> []"
  shows "renumber_step (render p) (Some (int r)) (render sb) (map render X)
           = map render (abs_step p r (last sb) X)"
proof (cases "r < last sb")
  case False
  then show ?thesis
    using assms(1) by (simp add: renumber_step_def last_number_render abs_step_def)
next
  case True
  then have k: "1 \<le> last sb" by simp
  have "rename (render p @ ''.'' @ show_int (int (last sb)))
               (render p @ ''.'' @ show_int (int (last sb) - 1)) (render x)
          = render (abs_rename p (last sb) x)" if "x \<in> set X" for x
  proof -
    from that assms(3) have "x \<noteq> []" by blast
    from rename_render [OF this assms(2) k] show ?thesis by (simp only: abs_rename_def)
  qed
  then have "map (rename (render p @ ''.'' @ show_int (int (last sb)))
                         (render p @ ''.'' @ show_int (int (last sb) - 1))) (map render X)
               = map render (map (abs_rename p (last sb)) X)"
    by simp
  with True show ?thesis
    using assms(1) by (simp add: renumber_step_def last_number_render abs_step_def Let_def)
qed

lemma abs_step_not_Nil: "\<forall>x \<in> set X. x \<noteq> [] \<Longrightarrow> \<forall>x \<in> set (abs_step p r k X). x \<noteq> []"
  by (auto simp: abs_step_def abs_rename_not_Nil)

lemma fold_renumber_step_render:
  assumes "p \<noteq> []" "\<forall>sb \<in> set sibs. sb \<noteq> []" "\<forall>x \<in> set X. x \<noteq> []"
  shows "fold (renumber_step (render p) (Some (int r))) (map render sibs) (map render X)
           = map render (fold (abs_step p r) (map last sibs) X)"
  using assms(2,3)
proof (induction sibs arbitrary: X)
  case Nil
  then show ?case by simp
next
  case (Cons sb sibs)
  from Cons.prems have sb: "sb \<noteq> []" and rest: "\<forall>sb \<in> set sibs. sb \<noteq> []" by simp_all
  have st: "renumber_step (render p) (Some (int r)) (render sb) (map render X)
              = map render (abs_step p r (last sb) X)"
    using sb assms(1) Cons.prems(2) by (rule renumber_step_render)
  have ne: "\<forall>x \<in> set (abs_step p r (last sb) X). x \<noteq> []"
    using Cons.prems(2) by (rule abs_step_not_Nil)
  from Cons.IH [OF rest ne] st show ?case by simp
qed

lemma renumbered_spec:
  assumes "set ks = {k. p @ [k] \<in> set S \<and> k \<noteq> r}"
  shows "renumbered p r ks s = spec_renumber S (p @ [r]) s"
proof (cases "\<exists>j rest. s = p @ j # rest")
  case False
  then show ?thesis by (simp add: renumbered_other spec_renumber_other)
next
  case True
  then obtain j rest where s: "s = p @ j # rest" by blast
  have "(j \<in> set ks \<and> r < j) \<longleftrightarrow> (r < j \<and> p @ [j] \<in> set S)" using assms by auto
  then show ?thesis unfolding s by (simp only: renumbered_at spec_renumber_at)
qed

lemma filter_subtree_render:
  assumes "\<forall>s \<in> set S. s \<noteq> []" "l \<noteq> []"
  shows "filter (\<lambda>pl. \<not> (pl = render l \<or> startsWith pl (render l @ ''.''))) (map render S)
           = map render (filter (\<lambda>s. take (length l) s \<noteq> l) S)"
proof -
  have "((\<lambda>pl. \<not> (pl = render l \<or> startsWith pl (render l @ ''.''))) \<circ> render) s
          = (take (length l) s \<noteq> l)" if "s \<in> set S" for s
  proof -
    from that assms(1) have "s \<noteq> []" by blast
    from subtree_render_iff [OF this assms(2)] show ?thesis unfolding comp_def by blast
  qed
  then have "filter ((\<lambda>pl. \<not> (pl = render l \<or> startsWith pl (render l @ ''.''))) \<circ> render) S
          = filter (\<lambda>s. take (length l) s \<noteq> l) S"
    by (intro filter_cong refl)
  then show ?thesis by (simp only: filter_map)
qed

lemma filter_children_render:
  assumes "\<forall>s \<in> set X. s \<noteq> []" "p \<noteq> []"
  shows "filter (is_direct_child (render p) (length p)) (map render X)
           = map render (filter (\<lambda>s. take (length p) s = p \<and> length s = length p + 1) X)"
proof -
  have "(is_direct_child (render p) (length p) \<circ> render) s
          = (take (length p) s = p \<and> length s = length p + 1)" if "s \<in> set X" for s
  proof -
    from that assms(1) have "s \<noteq> []" by blast
    from is_direct_child_render [OF this assms(2)] show ?thesis unfolding comp_def by blast
  qed
  then have "filter (is_direct_child (render p) (length p) \<circ> render) X
          = filter (\<lambda>s. take (length p) s = p \<and> length s = length p + 1) X"
    by (intro filter_cong refl)
  then show ?thesis by (simp only: filter_map)
qed

lemma child_shape:
  "take (length p) x = p \<and> length x = length p + 1 \<longleftrightarrow> x = p @ [last x] \<and> x \<noteq> []"
proof
  assume a: "take (length p) x = p \<and> length x = length p + 1"
  then have "x \<noteq> []" by auto
  then have "x = butlast x @ [last x]" by simp
  moreover have "butlast x = take (length p) x" using a by (simp add: butlast_conv_take)
  ultimately show "x = p @ [last x] \<and> x \<noteq> []" using a by auto
next
  assume a: "x = p @ [last x] \<and> x \<noteq> []"
  then obtain k where "x = p @ [k]" by blast
  then show "take (length p) x = p \<and> length x = length p + 1" by simp
qed

lemma removePart_render:
  assumes d: "distinct S" and ne: "\<forall>s \<in> set S. s \<noteq> []" and lp: "p \<noteq> []"
  shows "removePart True (render (p @ [r])) (map render S)
           = map render (spec_removePart S (p @ [r]))"
proof -
  let ?l = "p @ [r]"
  let ?S1 = "filter (\<lambda>s. take (length ?l) s \<noteq> ?l) S"
  let ?cand = "filter (\<lambda>s. take (length p) s = p \<and> length s = length p + 1) ?S1"
  let ?sibs = "sort_js last_cmp ?cand"
  let ?ks = "map last ?sibs"
  have ne1: "\<forall>s \<in> set ?S1. s \<noteq> []" using ne by simp
  have f1: "filter (\<lambda>pl. \<not> (pl = render ?l \<or> startsWith pl (render ?l @ ''.''))) (map render S)
              = map render ?S1"
    using ne by (rule filter_subtree_render) simp
  have rp: "render p \<noteq> []" using lp by (rule render_not_Nil)
  have ld: "lastIndexOf_dot (render ?l) = int (length (render p))"
    using lp by (rule lastIndexOf_dot_render)
  have pos: "0 < lastIndexOf_dot (render ?l)" using rp by (simp add: ld)
  have "take (length (render p)) (render ?l) = render p"
    using lp by (simp add: render_snoc)
  then have par: "take (nat (lastIndexOf_dot (render ?l))) (render ?l) = render p"
    by (simp only: ld nat_int)
  have dep: "length (split_dot (render p)) = length p" using lp by (rule depth_render)
  have f2: "filter (is_direct_child (render p) (length p)) (map render ?S1) = map render ?cand"
    using ne1 lp by (rule filter_children_render)
  have ne0: "\<forall>s \<in> set ?cand. s \<noteq> []" using ne by simp
  have f3: "sort_js (\<lambda>a b. js_sub (last_number a) (last_number b)) (map render ?cand)
              = map render ?sibs"
  proof (rule sort_js_map, intro ballI)
    fix x y assume "x \<in> set ?cand" "y \<in> set ?cand"
    with ne0 have "x \<noteq> []" "y \<noteq> []" by blast+
    then show "js_sub (last_number (render x)) (last_number (render y)) = last_cmp x y"
      by (simp add: last_number_render js_sub_def last_cmp_def)
  qed
  have rn: "last_number (render ?l) = Some (int r)"
    using last_number_render [of ?l] by simp
  have nes: "\<forall>s \<in> set ?sibs. s \<noteq> []" using ne0 by (simp only: set_sort_js)
  have f4: "fold (renumber_step (render p) (Some (int r))) (map render ?sibs) (map render ?S1)
              = map render (fold (abs_step p r) ?ks ?S1)"
    using lp nes ne1 by (rule fold_renumber_step_render)
  have shape: "x = p @ [last x]" if "x \<in> set ?sibs" for x
  proof -
    from that have "x \<in> set ?cand" by (simp only: set_sort_js)
    then have "take (length p) x = p \<and> length x = length p + 1" by simp
    then show ?thesis by (simp only: child_shape)
  qed
  have "distinct ?cand" using d by simp
  then have ds: "distinct ?sibs"
    by (simp only: mset_eq_imp_distinct_iff [OF mset_sort_js [of last_cmp ?cand]])
  have "inj_on last (set ?sibs)"
  proof (rule inj_onI)
    fix a b assume "a \<in> set ?sibs" "b \<in> set ?sibs" "last a = last b"
    with shape [of a] shape [of b] show "a = b" by simp
  qed
  with ds have "distinct ?ks" by (simp only: distinct_map)
  moreover have "sorted ?ks" by (rule sorted_by_last)
  ultimately have st: "sorted_wrt (<) ?ks" by (simp only: strict_sorted_iff)
  have ks: "set ?ks = {k. p @ [k] \<in> set S \<and> k \<noteq> r}"
  proof (rule set_eqI)
    fix k
    have "k \<in> set ?ks \<longleftrightarrow> (\<exists>x \<in> set ?cand. last x = k)"
      by (simp only: set_map set_sort_js image_iff) blast
    also have "\<dots> \<longleftrightarrow> p @ [k] \<in> set ?cand"
    proof
      assume "\<exists>x \<in> set ?cand. last x = k"
      then obtain x where x: "x \<in> set ?cand" "last x = k" by blast
      then have "take (length p) x = p \<and> length x = length p + 1" by simp
      then have "x = p @ [last x]" by (simp only: child_shape)
      with x show "p @ [k] \<in> set ?cand" by simp
    next
      assume "p @ [k] \<in> set ?cand"
      moreover have "last (p @ [k]) = k" by simp
      ultimately show "\<exists>x \<in> set ?cand. last x = k" by blast
    qed
    also have "\<dots> \<longleftrightarrow> p @ [k] \<in> set S \<and> k \<noteq> r" by auto
    finally show "k \<in> set ?ks \<longleftrightarrow> k \<in> {k. p @ [k] \<in> set S \<and> k \<noteq> r}" by simp
  qed
  have f5: "fold (abs_step p r) ?ks ?S1 = map (renumbered p r ?ks) ?S1"
    using st by (rule fold_abs_step)
  have "renumbered p r ?ks = spec_renumber S ?l"
    by (rule ext) (rule renumbered_spec [OF ks])
  with f5 have f6: "fold (abs_step p r) ?ks ?S1 = spec_removePart S ?l"
    by (simp only: spec_removePart_def)
  have "removePart True (render ?l) (map render S)
          = fold (renumber_step (render p) (Some (int r))) (map render ?sibs) (map render ?S1)"
    unfolding removePart_def Let_def f1 par dep f2 f3 rn using pos by simp
  then show ?thesis by (simp only: f4 f6)
qed

text \<open>
  C1: for every valid label set and every label in it, the confirmed \<open>removePart\<close>
  returns the renderings of \<open>spec_removePart\<close>: the label and all labels below it are
  gone, and every label at or below a later sibling has that sibling's number lowered
  by one, descendants keeping the rest of their path. The result is a valid label set
  again; for every parent the suffixes of its direct children are exactly \<open>1..k\<close> for
  some \<open>k \<ge> 0\<close>.
\<close>

theorem C1_removePart_renumbers:
  assumes "valid_labels S" "l \<in> set S"
  shows "removePart True (render l) (map render S) = map render (spec_removePart S l)
       \<and> valid_labels (spec_removePart S l)
       \<and> (\<forall>parent. \<exists>k. {j. parent @ [j] \<in> set (spec_removePart S l)} = {1..k})"
proof -
  from assms(1) have d: "distinct S"
    and b: "\<forall>s \<in> set S. 2 \<le> length s \<and> length s \<le> 6 \<and> (\<forall>k \<in> set s. 1 \<le> k) \<and> last s \<le> 6"
    unfolding valid_labels_iff by blast+
  have ne: "\<forall>s \<in> set S. s \<noteq> []" using b by auto
  from b assms(2) have ll: "2 \<le> length l" by blast
  then have ln: "l \<noteq> []" by auto
  have lpr: "l = butlast l @ [last l]" using ln by simp
  have bn: "butlast l \<noteq> []" using ll by (cases l rule: rev_cases) auto
  have "removePart True (render (butlast l @ [last l])) (map render S)
          = map render (spec_removePart S (butlast l @ [last l]))"
    using d ne bn by (rule removePart_render)
  then have 1: "removePart True (render l) (map render S) = map render (spec_removePart S l)"
    using lpr by simp
  have 2: "valid_labels (spec_removePart S l)" using assms by (rule valid_spec_removePart)
  have 3: "\<forall>parent. \<exists>k. {j. parent @ [j] \<in> set (spec_removePart S l)} = {1..k}"
    using children_interval [OF 2] by blast
  from 1 2 3 show ?thesis by blast
qed

theorem C1_removePart_renumbers_witness:
  "valid_labels [[2, 1], [2, 2], [2, 2, 1], [2, 3], [2, 3, 1], [2, 3, 1, 1]]
   \<and> [2, 2 :: nat] \<in> set [[2, 1], [2, 2], [2, 2, 1], [2, 3], [2, 3, 1], [2, 3, 1, 1]]
   \<and> removePart True ''2.2'' [''2.1'', ''2.2'', ''2.2.1'', ''2.3'', ''2.3.1'', ''2.3.1.1'']
        = [''2.1'', ''2.2'', ''2.2.1'', ''2.2.1.1'']
   \<and> valid_labels [[2, 1], [2, 2], [2, 2, 1], [2, 2, 1, 1]]"
proof -
  let ?S = "[[2, 1], [2, 2], [2, 2, 1], [2, 3], [2, 3, 1], [2, 3, 1, 1]] :: nat list list"
  have v: "valid_labels ?S" by code_simp
  have m: "[2, 2] \<in> set ?S" by simp
  have r1: "map render ?S = [''2.1'', ''2.2'', ''2.2.1'', ''2.3'', ''2.3.1'', ''2.3.1.1'']"
    by code_simp
  have r2: "render [2, 2] = ''2.2''" by code_simp
  have r3: "spec_removePart ?S [2, 2] = [[2, 1], [2, 2], [2, 2, 1], [2, 2, 1, 1]]" by code_simp
  have r4: "map render [[2, 1], [2, 2], [2, 2, 1], [2, 2, 1, 1]]
              = [''2.1'', ''2.2'', ''2.2.1'', ''2.2.1.1'']"
    by code_simp
  from C1_removePart_renumbers [OF v m]
  have "removePart True (render [2, 2]) (map render ?S) = map render (spec_removePart ?S [2, 2])"
    and "valid_labels (spec_removePart ?S [2, 2])"
    by blast+
  then have "removePart True ''2.2'' [''2.1'', ''2.2'', ''2.2.1'', ''2.3'', ''2.3.1'', ''2.3.1.1'']
        = [''2.1'', ''2.2'', ''2.2.1'', ''2.2.1.1'']"
    and "valid_labels [[2, 1], [2, 2], [2, 2, 1], [2, 2, 1, 1]]"
    by (simp_all only: r1 r2 r3 r4)
  with v m show ?thesis by blast
qed

text \<open>
  C2 (the code departs from the claim): \<open>addSubpartToQuestion\<close> counts every label that
  starts with the question number and a dot, nested ones included, where its comments
  speak of main-level parts. With one top-level part that has five children the count
  is 6: the operation is refused and nothing is added, although fewer than 6 top-level
  parts exist. With top-level parts only it adds the next number.
\<close>

theorem C2_deep_tree_blocks_top_level_part:
  "addSubpartToQuestion ''1'' [''1.1'', ''1.1.1'', ''1.1.2'', ''1.1.3'', ''1.1.4'', ''1.1.5'']
     = ([''1.1'', ''1.1.1'', ''1.1.2'', ''1.1.3'', ''1.1.4'', ''1.1.5''],
        Some ''Maximum of 6 subparts reached for this question'')
   \<and> direct_children ''1'' [''1.1'', ''1.1.1'', ''1.1.2'', ''1.1.3'', ''1.1.4'', ''1.1.5''] = [''1.1'']
   \<and> addSubpartToQuestion ''1'' [''1.1'', ''1.2''] = ([''1.1'', ''1.2'', ''1.3''], None)"
  by code_simp



end
